theory Spec2Isabelle
  imports Main
begin

section \<open>The JSON string encoder of libear\<close>

text \<open>
  This theory embeds the reporting and environment code of \<^verbatim>\<open>libear/ear.c\<close>:
  the JSON encoder, the report writer, the string-array utilities on an explicit heap,
  the environment update, and the load/unload state of the library.
\<close>

subsection \<open>Bytes, wide characters and the destination buffer\<close>

text \<open>
  A C \<^verbatim>\<open>char\<close> is an Isabelle \<^typ>\<open>char\<close> (one byte); a C string is a \<^typ>\<open>string\<close> that holds
  the bytes before the terminating zero. The value of a \<^verbatim>\<open>wchar_t\<close> is an integer; its
  width is a matter of the platform. The file resolves the genuine functions through
  \<^verbatim>\<open>cygwin1.dll\<close> and so is built for Cygwin, where a \<^verbatim>\<open>wchar_t\<close> has 16 bits and holds the
  values \<open>0\<close> to \<open>0xFFFF\<close>; the properties below state this range where they need it.
  The destination of the encoder is a memory region addressed by its offset from
  \<^verbatim>\<open>dst\<close>: a map from offsets to the bytes that were written there. An offset that is not
  in the map was never written; an offset at or above \<^verbatim>\<open>dst_size\<close> lies outside the buffer.
\<close>

type_synonym wchar = int
type_synonym buffer = "nat \<Rightarrow> char option"

definition NUL :: char where
  "NUL = CHR 0x00"

definition backslash :: char where
  "backslash = CHR 0x5C"

definition dquote :: char where
  "dquote = CHR 0x22"

fun store_bytes :: "buffer \<Rightarrow> nat \<Rightarrow> string \<Rightarrow> buffer" where
  "store_bytes m p [] = m"
| "store_bytes m p (c # cs) = store_bytes (m(p \<mapsto> c)) (Suc p) cs"

text \<open>
  \<^verbatim>\<open>snprintf(dst_it, n, ...)\<close> with the formatted text \<open>s\<close>: at most \<open>n - 1\<close> bytes of \<open>s\<close>
  and a terminating zero are stored from \<open>p\<close> on, whatever room is left in the buffer;
  the value returned is the length of the whole text.
\<close>

definition snprintf :: "buffer \<Rightarrow> nat \<Rightarrow> nat \<Rightarrow> string \<Rightarrow> nat \<times> buffer" where
  "snprintf m p n s =
     (length s, if n = 0 then m else store_bytes m p (take (n - 1) s @ [NUL]))"

definition hex_digit :: "nat \<Rightarrow> char" where
  "hex_digit d = (''0123456789abcdef'' ! (d mod 16))"

function hex_of :: "nat \<Rightarrow> string" where
  "hex_of n = (if n < 16 then [hex_digit n] else hex_of (n div 16) @ [hex_digit n])"
  by pat_completeness auto
termination
  by (relation "measure id") auto

declare hex_of.simps [simp del]

text \<open>The conversion \<^verbatim>\<open>%04x\<close>: lower-case hexadecimal, padded with zeros to at least four digits.\<close>

definition printf_04x :: "nat \<Rightarrow> string" where
  "printf_04x n = replicate (4 - length (hex_of n)) CHR ''0'' @ hex_of n"

text \<open>The cast \<^verbatim>\<open>(unsigned int)\<close> of a \<^verbatim>\<open>wchar_t\<close>.\<close>

definition to_unsigned :: "wchar \<Rightarrow> nat" where
  "to_unsigned w = nat (w mod 2 ^ 32)"

subsection \<open>\<^verbatim>\<open>encode_json_string\<close>\<close>

text \<open>
  The loop of \<^verbatim>\<open>encode_json_string\<close> over the wide characters, with \<open>dst_end\<close> the offset of the
  end of the buffer and \<open>dst_it\<close> the offset of the write position. The result is the
  returned status (\<open>0\<close> or \<open>-1\<close>) and the memory as written.
\<close>

fun encode_loop :: "wchar list \<Rightarrow> nat \<Rightarrow> nat \<Rightarrow> buffer \<Rightarrow> int \<times> buffer" where
  "encode_loop [] dst_end dst_it m =
     (if dst_it < dst_end then (0, m(dst_it \<mapsto> NUL)) else (- 1, m))"
| "encode_loop (w # ws) dst_end dst_it m =
     (if dst_it \<ge> dst_end then (- 1, m)
      else if w = 8 then
        (case snprintf m dst_it 3 [backslash, CHR ''b''] of
           (k, m') \<Rightarrow> encode_loop ws dst_end (dst_it + k) m')
      else if w = 12 then
        (case snprintf m dst_it 3 [backslash, CHR ''f''] of
           (k, m') \<Rightarrow> encode_loop ws dst_end (dst_it + k) m')
      else if w = 10 then
        (case snprintf m dst_it 3 [backslash, CHR ''n''] of
           (k, m') \<Rightarrow> encode_loop ws dst_end (dst_it + k) m')
      else if w = 13 then
        (case snprintf m dst_it 3 [backslash, CHR ''r''] of
           (k, m') \<Rightarrow> encode_loop ws dst_end (dst_it + k) m')
      else if w = 9 then
        (case snprintf m dst_it 3 [backslash, CHR ''t''] of
           (k, m') \<Rightarrow> encode_loop ws dst_end (dst_it + k) m')
      else if w = 34 then
        (case snprintf m dst_it 3 [backslash, dquote] of
           (k, m') \<Rightarrow> encode_loop ws dst_end (dst_it + k) m')
      else if w = 92 then
        (case snprintf m dst_it 3 [backslash, backslash] of
           (k, m') \<Rightarrow> encode_loop ws dst_end (dst_it + k) m')
      else if w < 32 \<or> w > 127 then
        (case snprintf m dst_it 7 ([backslash, CHR ''u''] @ printf_04x (to_unsigned w)) of
           (k, m') \<Rightarrow> encode_loop ws dst_end (dst_it + k) m')
      else encode_loop ws dst_end (Suc dst_it) (m(dst_it \<mapsto> char_of w)))"

text \<open>
  \<^verbatim>\<open>mbstowcs\<close> belongs to the C library and depends on the locale in force, so the
  encoder takes it as a parameter: \<open>None\<close> is the failed conversion (the branch that
  prints the error and returns \<open>-1\<close>), \<open>Some ws\<close> the wide characters of the string.
\<close>

type_synonym decoder = "string \<Rightarrow> wchar list option"

definition encode_json_string :: "decoder \<Rightarrow> string \<Rightarrow> nat \<Rightarrow> int \<times> buffer" where
  "encode_json_string mbstowcs src dst_size =
     (case mbstowcs src of
        None \<Rightarrow> (- 1, Map.empty)
      | Some wsrc \<Rightarrow> encode_loop wsrc dst_size 0 Map.empty)"

text \<open>
  The C string that starts at offset \<open>p\<close>, as a \<^verbatim>\<open>%s\<close> conversion reads it: the bytes up
  to the first zero. Reading stops without a result after \<open>n\<close> bytes or at a byte that was
  never written.
\<close>

fun c_string :: "buffer \<Rightarrow> nat \<Rightarrow> nat \<Rightarrow> string option" where
  "c_string m p 0 = None"
| "c_string m p (Suc n) =
     (case m p of
        None \<Rightarrow> None
      | Some c \<Rightarrow> if c = NUL then Some [] else map_option ((#) c) (c_string m (Suc p) n))"

subsection \<open>A UTF-8 instance of the decoder\<close>

text \<open>
  The library creates its locale for UTF-8 text. The examples use \<open>utf8_mbstowcs\<close>, the
  conversion of well-formed UTF-8 to the 16-bit \<^verbatim>\<open>wchar_t\<close> of the platform: one wide
  character for a code point up to \<open>0xFFFF\<close>, the two halves of the surrogate pair for a
  code point above it, failure on a malformed sequence. The properties are stated for
  any conversion; only the examples depend on this one.
\<close>

definition cont_byte :: "nat \<Rightarrow> bool" where
  "cont_byte b = (128 \<le> b \<and> b < 192)"

fun utf8_decode :: "nat list \<Rightarrow> wchar list option" where
  "utf8_decode [] = Some []"
| "utf8_decode (b0 # bs) =
     (if b0 < 128 then map_option ((#) (int b0)) (utf8_decode bs)
      else if 194 \<le> b0 \<and> b0 < 224 then
        (case bs of
           b1 # r \<Rightarrow>
             if cont_byte b1
             then map_option ((#) (int ((b0 - 192) * 64 + (b1 - 128)))) (utf8_decode r)
             else None
         | _ \<Rightarrow> None)
      else if 224 \<le> b0 \<and> b0 < 240 then
        (case bs of
           b1 # b2 # r \<Rightarrow>
             (let cp = (b0 - 224) * 4096 + (b1 - 128) * 64 + (b2 - 128)
              in if cont_byte b1 \<and> cont_byte b2 \<and> 2048 \<le> cp \<and> \<not> (55296 \<le> cp \<and> cp < 57344)
                 then map_option ((#) (int cp)) (utf8_decode r)
                 else None)
         | _ \<Rightarrow> None)
      else if 240 \<le> b0 \<and> b0 < 245 then
        (case bs of
           b1 # b2 # b3 # r \<Rightarrow>
             (let cp = (b0 - 240) * 262144 + (b1 - 128) * 4096 + (b2 - 128) * 64 + (b3 - 128)
              in if cont_byte b1 \<and> cont_byte b2 \<and> cont_byte b3 \<and> 65536 \<le> cp \<and> cp < 1114112
                 then map_option
                        (\<lambda>ws. int (55296 + (cp - 65536) div 1024)
                               # int (56320 + (cp - 65536) mod 1024) # ws)
                        (utf8_decode r)
                 else None)
         | _ \<Rightarrow> None)
      else None)"

definition utf8_mbstowcs :: decoder where
  "utf8_mbstowcs src = utf8_decode (map of_char src)"


section \<open>The heap of C strings and string arrays\<close>

text \<open>
  Environment and argument vectors are zero-terminated arrays of pointers to C strings.
  An address is a natural number, \<open>0\<close> the null pointer. The heap maps an address to the
  string or to the block of pointer slots that lives there. \<open>brk\<close> is the highest address
  handed out so far, \<open>avail\<close> the number of allocations that still succeed, \<open>garbage\<close>
  the pointer value found in slots that were allocated but not yet written, and \<open>moves\<close>
  tells whether \<^verbatim>\<open>realloc\<close> relocates a block or resizes it in place.
\<close>

type_synonym addr = nat

datatype error = Exit_failure | Fault

record heap =
  strs :: "addr \<Rightarrow> string option"
  arrs :: "addr \<Rightarrow> addr list option"
  brk :: addr
  avail :: nat
  garbage :: addr
  moves :: bool

text \<open>\<^verbatim>\<open>strdup\<close> and \<^verbatim>\<open>malloc\<close> return the null pointer when no memory is left.\<close>

definition strdup :: "heap \<Rightarrow> string \<Rightarrow> addr \<times> heap" where
  "strdup h s =
     (if avail h = 0 then (0, h)
      else (Suc (brk h),
            h\<lparr>strs := (strs h)(Suc (brk h) \<mapsto> s), brk := Suc (brk h), avail := avail h - 1\<rparr>))"

definition malloc_array :: "heap \<Rightarrow> nat \<Rightarrow> addr \<times> heap" where
  "malloc_array h n =
     (if avail h = 0 then (0, h)
      else (Suc (brk h),
            h\<lparr>arrs := (arrs h)(Suc (brk h) \<mapsto> replicate n (garbage h)),
              brk := Suc (brk h), avail := avail h - 1\<rparr>))"

text \<open>
  \<^verbatim>\<open>realloc(p, n * sizeof(char const *))\<close>: a null \<open>p\<close> allocates; otherwise the block keeps
  its first slots, new slots hold garbage, and a failed call leaves the block as it was.
\<close>

definition realloc :: "heap \<Rightarrow> addr \<Rightarrow> nat \<Rightarrow> error + (addr \<times> heap)" where
  "realloc h p n =
     (if p = 0 then Inr (malloc_array h n)
      else case arrs h p of
        None \<Rightarrow> Inl Fault
      | Some slots \<Rightarrow>
          if avail h = 0 then Inr (0, h)
          else let slots' = take n slots @ replicate (n - length slots) (garbage h)
               in if moves h
                  then Inr (Suc (brk h),
                            h\<lparr>arrs := ((arrs h)(p := None))(Suc (brk h) \<mapsto> slots'),
                              brk := Suc (brk h), avail := avail h - 1\<rparr>)
                  else Inr (p, h\<lparr>arrs := (arrs h)(p \<mapsto> slots'), avail := avail h - 1\<rparr>))"

text \<open>\<^verbatim>\<open>free\<close>: nothing happens for the null pointer; an address that holds no block is a fault.\<close>

definition free :: "heap \<Rightarrow> addr \<Rightarrow> error + heap" where
  "free h a =
     (if a = 0 then Inr h
      else if strs h a = None \<and> arrs h a = None then Inl Fault
      else Inr (h\<lparr>strs := (strs h)(a := None), arrs := (arrs h)(a := None)\<rparr>))"

text \<open>An assignment \<^verbatim>\<open>p[i] = v\<close> to a slot of the block at \<open>p\<close>.\<close>

definition store_slot :: "heap \<Rightarrow> addr \<Rightarrow> nat \<Rightarrow> addr \<Rightarrow> error + heap" where
  "store_slot h p i v =
     (case arrs h p of
        None \<Rightarrow> Inl Fault
      | Some slots \<Rightarrow>
          if i < length slots then Inr (h\<lparr>arrs := (arrs h)(p \<mapsto> slots[i := v])\<rparr>)
          else Inl Fault)"

subsection \<open>\<^verbatim>\<open>string_array_length\<close>, \<^verbatim>\<open>string_array_copy\<close>, \<^verbatim>\<open>string_array_release\<close>\<close>

text \<open>
  Each loop \<^verbatim>\<open>for (it = in; (it) && (*it); ++it)\<close> walks the slots of the block at \<open>in\<close>,
  which its body never writes; it is a recursion over those slots. Leaving the block
  before a null slot was met is a fault.
\<close>

fun count_slots :: "addr list \<Rightarrow> error + nat" where
  "count_slots [] = Inl Fault"
| "count_slots (a # as) =
     (if a = 0 then Inr 0
      else case count_slots as of Inl e \<Rightarrow> Inl e | Inr n \<Rightarrow> Inr (Suc n))"

definition string_array_length :: "heap \<Rightarrow> addr \<Rightarrow> error + nat" where
  "string_array_length h inp =
     (if inp = 0 then Inr 0
      else case arrs h inp of None \<Rightarrow> Inl Fault | Some slots \<Rightarrow> count_slots slots)"

fun copy_loop :: "heap \<Rightarrow> addr \<Rightarrow> nat \<Rightarrow> addr list \<Rightarrow> error + heap" where
  "copy_loop h result out_it [] = Inl Fault"
| "copy_loop h result out_it (a # as) =
     (if a = 0 then store_slot h result out_it 0
      else case strs h a of
        None \<Rightarrow> Inl Fault
      | Some s \<Rightarrow>
          (case strdup h s of
             (c, h1) \<Rightarrow>
               (case store_slot h1 result out_it c of
                  Inl e \<Rightarrow> Inl e
                | Inr h2 \<Rightarrow>
                    if c = 0 then Inl Exit_failure
                    else copy_loop h2 result (Suc out_it) as)))"

definition string_array_copy :: "heap \<Rightarrow> addr \<Rightarrow> error + (addr \<times> heap)" where
  "string_array_copy h inp =
     (case string_array_length h inp of
        Inl e \<Rightarrow> Inl e
      | Inr sz \<Rightarrow>
          (case malloc_array h (sz + 1) of
             (result, h1) \<Rightarrow>
               if result = 0 then Inl Exit_failure
               else if inp = 0 then
                 (case store_slot h1 result 0 0 of Inl e \<Rightarrow> Inl e | Inr h2 \<Rightarrow> Inr (result, h2))
               else
                 (case arrs h1 inp of
                    None \<Rightarrow> Inl Fault
                  | Some slots \<Rightarrow>
                      (case copy_loop h1 result 0 slots of
                         Inl e \<Rightarrow> Inl e
                       | Inr h2 \<Rightarrow> Inr (result, h2)))))"

fun release_loop :: "heap \<Rightarrow> addr list \<Rightarrow> error + heap" where
  "release_loop h [] = Inl Fault"
| "release_loop h (a # as) =
     (if a = 0 then Inr h
      else case free h a of Inl e \<Rightarrow> Inl e | Inr h1 \<Rightarrow> release_loop h1 as)"

definition string_array_release :: "heap \<Rightarrow> addr \<Rightarrow> error + heap" where
  "string_array_release h inp =
     (if inp = 0 then free h inp
      else case arrs h inp of
        None \<Rightarrow> Inl Fault
      | Some slots \<Rightarrow>
          (case release_loop h slots of Inl e \<Rightarrow> Inl e | Inr h1 \<Rightarrow> free h1 inp))"

subsection \<open>\<^verbatim>\<open>string_array_single_update\<close> and \<^verbatim>\<open>string_array_partial_update\<close>\<close>

text \<open>
  \<^verbatim>\<open>strncmp(s1, s2, n) == 0\<close> on strings without an embedded zero: the first \<open>n\<close>
  bytes agree, or both strings end before that and are equal.
\<close>

definition strncmp_eq :: "string \<Rightarrow> string \<Rightarrow> nat \<Rightarrow> bool" where
  "strncmp_eq s1 s2 n = (take n s1 = take n s2)"

text \<open>The test of the search loop on one entry.\<close>

definition env_match :: "string \<Rightarrow> string \<Rightarrow> bool" where
  "env_match key e =
     (strncmp_eq e key (length key) \<and> length e > length key \<and> e ! (length key) = CHR ''='')"

text \<open>The search loop: the index at which it stops, at a matching entry or at the null slot.\<close>

fun find_entry :: "heap \<Rightarrow> string \<Rightarrow> addr list \<Rightarrow> nat \<Rightarrow> error + nat" where
  "find_entry h key [] i = Inl Fault"
| "find_entry h key (a # as) i =
     (if a = 0 then Inr i
      else case strs h a of
        None \<Rightarrow> Inl Fault
      | Some e \<Rightarrow> if env_match key e then Inr i else find_entry h key as (Suc i))"

definition string_array_single_update ::
  "heap \<Rightarrow> addr \<Rightarrow> string \<Rightarrow> string \<Rightarrow> error + (addr \<times> heap)" where
  "string_array_single_update h envs key value =
     (case (if envs = 0 then Inr (0, [])
            else case arrs h envs of
              None \<Rightarrow> Inl Fault
            | Some slots \<Rightarrow>
                (case find_entry h key slots 0 of Inl e \<Rightarrow> Inl e | Inr i \<Rightarrow> Inr (i, slots))) of
        Inl e \<Rightarrow> Inl e
      | Inr (it, slots) \<Rightarrow>
          (case strdup h (key @ ''='' @ value) of
             (env, h1) \<Rightarrow>
               if env = 0 then Inl Exit_failure
               else if envs \<noteq> 0 \<and> slots ! it \<noteq> 0 then
                 (case free h1 (slots ! it) of
                    Inl e \<Rightarrow> Inl e
                  | Inr h2 \<Rightarrow>
                      (case store_slot h2 envs it env of
                         Inl e \<Rightarrow> Inl e
                       | Inr h3 \<Rightarrow> Inr (envs, h3)))
               else
                 (case string_array_length h1 envs of
                    Inl e \<Rightarrow> Inl e
                  | Inr sz \<Rightarrow>
                      (case realloc h1 envs (sz + 2) of
                         Inl e \<Rightarrow> Inl e
                       | Inr (result, h2) \<Rightarrow>
                           if result = 0 then Inl Exit_failure
                           else
                             (case store_slot h2 result sz env of
                                Inl e \<Rightarrow> Inl e
                              | Inr h3 \<Rightarrow>
                                  (case store_slot h3 result (sz + 1) 0 of
                                     Inl e \<Rightarrow> Inl e
                                   | Inr h4 \<Rightarrow> Inr (result, h4)))))))"

text \<open>
  The loop of \<^verbatim>\<open>string_array_partial_update\<close> over the names and the captured slots
  (\<^verbatim>\<open>ENV_SIZE\<close> is the length of both lists); it ends at the first null slot.
\<close>

fun update_loop ::
  "heap \<Rightarrow> addr \<Rightarrow> string list \<Rightarrow> addr list \<Rightarrow> error + (addr \<times> heap)" where
  "update_loop h result (key # keys) (v # vs) =
     (if v = 0 then Inr (result, h)
      else case strs h v of
        None \<Rightarrow> Inl Fault
      | Some value \<Rightarrow>
          (case string_array_single_update h result key value of
             Inl e \<Rightarrow> Inl e
           | Inr (result', h1) \<Rightarrow> update_loop h1 result' keys vs))"
| "update_loop h result keys vs = Inr (result, h)"

definition string_array_partial_update ::
  "string list \<Rightarrow> heap \<Rightarrow> addr \<Rightarrow> addr list \<Rightarrow> error + (addr \<times> heap)" where
  "string_array_partial_update env_names h envp env =
     (case string_array_copy h envp of
        Inl e \<Rightarrow> Inl e
      | Inr (result, h1) \<Rightarrow> update_loop h1 result env_names env)"

text \<open>The names of the captured variables, without and with \<^verbatim>\<open>APPLE\<close> defined.\<close>

definition ENV_OUTPUT :: string where
  "ENV_OUTPUT = ''INTERCEPT_BUILD_TARGET_DIR''"

definition env_names :: "string list" where
  "env_names = [ENV_OUTPUT, ''LD_PRELOAD'']"

definition env_names_apple :: "string list" where
  "env_names_apple = [ENV_OUTPUT, ''DYLD_INSERT_LIBRARIES'', ''DYLD_FORCE_FLAT_NAMESPACE'']"

section \<open>The report writer\<close>

text \<open>
  The report file behind the descriptor: the bytes written so far and the number of bytes
  the descriptor still accepts. \<^verbatim>\<open>dprintf\<close> returns the number of bytes written, or a
  negative value, writing nothing, when the text does not fit.
\<close>

record out_file =
  content :: string
  room :: nat

definition dprintf :: "out_file \<Rightarrow> string \<Rightarrow> int \<times> out_file" where
  "dprintf fd s =
     (if length s \<le> room fd
      then (int (length s), fd\<lparr>content := content fd @ s, room := room fd - length s\<rparr>)
      else (- 1, fd))"

definition dec_digit :: "nat \<Rightarrow> char" where
  "dec_digit d = (''0123456789'' ! (d mod 10))"

function dec_of :: "nat \<Rightarrow> string" where
  "dec_of n = (if n < 10 then [dec_digit n] else dec_of (n div 10) @ [dec_digit n])"
  by pat_completeness auto
termination
  by (relation "measure id") auto

declare dec_of.simps [simp del]

text \<open>The conversion \<^verbatim>\<open>%d\<close>.\<close>

definition printf_d :: "int \<Rightarrow> string" where
  "printf_d i = (if i < 0 then CHR ''-'' # dec_of (nat (- i)) else dec_of (nat i))"

text \<open>
  The loop of \<^verbatim>\<open>write_json_report\<close> over the slots of \<^verbatim>\<open>cmd\<close>; \<open>first\<close> is the test
  \<^verbatim>\<open>it == cmd\<close>. A result \<open>Inr (- 1, fd)\<close> is the early \<^verbatim>\<open>return -1\<close>.
\<close>

fun report_args :: "decoder \<Rightarrow> heap \<Rightarrow> bool \<Rightarrow> addr list \<Rightarrow> out_file \<Rightarrow> error + (int \<times> out_file)" where
  \<open>report_args mbstowcs h first [] fd = Inl Fault\<close>
| \<open>report_args mbstowcs h first (a # as) fd =
     (if a = 0 then Inr (0, fd)
      else case strs h a of
        None \<Rightarrow> Inl Fault
      | Some arg \<Rightarrow>
          (let sep = (if first then [] else '','');
               buffer_size = 6 * length arg + 1
           in case encode_json_string mbstowcs arg buffer_size of
                (st, buffer) \<Rightarrow>
                  if st = - 1 then Inr (- 1, fd)
                  else
                    (case c_string buffer 0 buffer_size of
                       None \<Rightarrow> Inl Fault
                     | Some text \<Rightarrow>
                         (case dprintf fd (sep @ '' "'' @ text @ ''"'') of
                            (r, fd1) \<Rightarrow>
                              if r < 0 then Inr (- 1, fd1)
                              else report_args mbstowcs h False as fd1))))\<close>

definition write_json_report ::
  "decoder \<Rightarrow> heap \<Rightarrow> out_file \<Rightarrow> addr \<Rightarrow> addr \<Rightarrow> int \<Rightarrow> error + (int \<times> out_file)" where
  \<open>write_json_report mbstowcs h fd cmd cwd pid =
     (case dprintf fd (''{ "pid": '' @ printf_d pid @ '', "cmd": ['') of
        (r, fd1) \<Rightarrow>
          if r < 0 then Inr (- 1, fd1)
          else
            (case (if cmd = 0 then Inr (0, fd1)
                   else (case arrs h cmd of
                           None \<Rightarrow> Inl Fault
                         | Some slots \<Rightarrow> report_args mbstowcs h True slots fd1)) of
               Inl e \<Rightarrow> Inl e
             | Inr (st, fd2) \<Rightarrow>
                 if st \<noteq> 0 then Inr (- 1, fd2)
                 else
                   (case strs h cwd of
                      None \<Rightarrow> Inl Fault
                    | Some dir \<Rightarrow>
                        (let buffer_size = 6 * length dir
                         in case encode_json_string mbstowcs dir buffer_size of
                              (st', buffer) \<Rightarrow>
                                if st' = - 1 then Inr (- 1, fd2)
                                else
                                  (case c_string buffer 0 buffer_size of
                                     None \<Rightarrow> Inl Fault
                                   | Some text \<Rightarrow>
                                       (case dprintf fd2 (''], "cwd": "'' @ text @ ''" }'') of
                                          (r', fd3) \<Rightarrow>
                                            if r' < 0 then Inr (- 1, fd3)
                                            else Inr (0, fd3)))))))\<close>

section \<open>Load, unload and the intercepted entry points\<close>

text \<open>
  What the library asks of the system: the environment at load time, the locale calls,
  the multibyte conversion, \<^verbatim>\<open>mkstemp\<close> (the name of the file it created, or failure),
  the working directory, the process id, the room on the report file and the result
  of \<^verbatim>\<open>close\<close>.
\<close>

record sys =
  getenv :: "string \<Rightarrow> string option"
  newlocale :: nat
  uselocale :: "nat \<Rightarrow> nat"
  mbstowcs_of :: decoder
  mkstemp :: "string \<Rightarrow> string option"
  getcwd :: "string option"
  getpid :: int
  disk_room :: nat
  close_ok :: bool

text \<open>
  The globals of the library (\<^verbatim>\<open>initialized\<close>, \<^verbatim>\<open>initial_env\<close>, \<^verbatim>\<open>utf_locale\<close>), the
  global \<^verbatim>\<open>environ\<close>, the heap, and the report files created so far with their contents.
\<close>

record shim =
  initialized :: bool
  initial_env :: "addr list"
  utf_locale :: nat
  environ :: addr
  mem :: heap
  files :: "(string \<times> string) list"

text \<open>
  The loop of \<^verbatim>\<open>capture_env_t\<close> over the names: the copies stored in the slots, the
  status and the heap. \<^verbatim>\<open>status &= (env_copy) ? 1 : 0\<close> keeps a status of \<open>0\<close> or \<open>1\<close>
  when the copy is there and clears it otherwise.
\<close>

fun capture_loop ::
  "(string \<Rightarrow> string option) \<Rightarrow> string list \<Rightarrow> heap \<Rightarrow> int \<Rightarrow> addr list \<times> int \<times> heap" where
  "capture_loop genv [] h status = ([], status, h)"
| "capture_loop genv (name # names) h status =
     (case (case genv name of None \<Rightarrow> (0, h) | Some env_value \<Rightarrow> strdup h env_value) of
        (env_copy, h1) \<Rightarrow>
          (case capture_loop genv names h1 (if env_copy \<noteq> 0 then status else 0) of
             (env, status', h2) \<Rightarrow> (env_copy # env, status', h2)))"

definition capture_env_t ::
  "(string \<Rightarrow> string option) \<Rightarrow> string list \<Rightarrow> heap \<Rightarrow> addr list \<times> int \<times> heap" where
  "capture_env_t genv names h = capture_loop genv names h 1"

fun release_env_t :: "heap \<Rightarrow> addr list \<Rightarrow> error + (addr list \<times> heap)" where
  "release_env_t h [] = Inr ([], h)"
| "release_env_t h (p # ps) =
     (case free h p of
        Inl e \<Rightarrow> Inl e
      | Inr h1 \<Rightarrow>
          (case release_env_t h1 ps of
             Inl e \<Rightarrow> Inl e
           | Inr (env, h2) \<Rightarrow> Inr (0 # env, h2)))"

definition mt_safe_on_load :: "sys \<Rightarrow> string list \<Rightarrow> shim \<Rightarrow> int \<times> shim" where
  "mt_safe_on_load os names s =
     (if newlocale os = 0 then (0, s\<lparr>utf_locale := 0\<rparr>)
      else case capture_env_t (getenv os) names (mem s) of
        (env, status, h) \<Rightarrow>
          (if status = 0 then 0 else 1,
           s\<lparr>utf_locale := newlocale os, initial_env := env, mem := h\<rparr>))"

definition on_load :: "sys \<Rightarrow> string list \<Rightarrow> shim \<Rightarrow> shim" where
  "on_load os names s =
     (if initialized s then s
      else case mt_safe_on_load os names s of
        (r, s1) \<Rightarrow> if r \<noteq> 0 then s1\<lparr>initialized := True\<rparr> else s1)"

definition mt_safe_on_unload :: "shim \<Rightarrow> error + shim" where
  "mt_safe_on_unload s =
     (case release_env_t (mem s) (initial_env s) of
        Inl e \<Rightarrow> Inl e
      | Inr (env, h) \<Rightarrow> Inr (s\<lparr>initial_env := env, mem := h\<rparr>))"

definition on_unload :: "shim \<Rightarrow> error + shim" where
  "on_unload s =
     (case (if initialized s then mt_safe_on_unload s else Inr s) of
        Inl e \<Rightarrow> Inl e
      | Inr s1 \<Rightarrow> Inr (s1\<lparr>initialized := False\<rparr>))"

text \<open>The state of the library before its constructor ran.\<close>

definition unloaded :: "nat \<Rightarrow> addr \<Rightarrow> heap \<Rightarrow> shim" where
  "unloaded env_size env h =
     \<lparr>initialized = False, initial_env = replicate env_size 0, utf_locale = 0,
      environ = env, mem = h, files = []\<rparr>"

subsection \<open>\<^verbatim>\<open>report_call\<close> and \<^verbatim>\<open>write_report\<close>\<close>

definition write_report :: "sys \<Rightarrow> shim \<Rightarrow> out_file \<Rightarrow> addr \<Rightarrow> error + (out_file \<times> shim)" where
  "write_report os s fd argv =
     (let saved_locale = uselocale os (utf_locale s)
      in if saved_locale = 0 then Inl Exit_failure
         else
           (case getcwd os of
              None \<Rightarrow> Inl Exit_failure
            | Some dir \<Rightarrow>
                (case strdup (mem s) dir of
                   (cwd, h1) \<Rightarrow>
                     if cwd = 0 then Inl Exit_failure
                     else
                       (case write_json_report (mbstowcs_of os) h1 fd argv cwd (getpid os) of
                          Inl e \<Rightarrow> Inl e
                        | Inr (st, fd1) \<Rightarrow>
                            if st \<noteq> 0 then Inl Exit_failure
                            else
                              (case free h1 cwd of
                                 Inl e \<Rightarrow> Inl e
                               | Inr h2 \<Rightarrow>
                                   if uselocale os saved_locale = 0 then Inl Exit_failure
                                   else Inr (fd1, s\<lparr>mem := h2\<rparr>))))))"

definition report_call :: "sys \<Rightarrow> shim \<Rightarrow> addr \<Rightarrow> error + shim" where
  "report_call os s argv =
     (if \<not> initialized s then Inr s
      else case initial_env s of
        [] \<Rightarrow> Inl Fault
      | p # _ \<Rightarrow>
          (case strs (mem s) p of
             None \<Rightarrow> Inl Fault
           | Some out_dir \<Rightarrow>
               (let path_max_length = length out_dir + 32;
                    filename = take (path_max_length - 1) (out_dir @ ''/execution.XXXXXX'')
                in case mkstemp os filename of
                     None \<Rightarrow> Inl Exit_failure
                   | Some name \<Rightarrow>
                       (case write_report os s \<lparr>content = [], room = disk_room os\<rparr> argv of
                          Inl e \<Rightarrow> Inl e
                        | Inr (fd, s1) \<Rightarrow>
                            if close_ok os
                            then Inr (s1\<lparr>files := files s1 @ [(name, content fd)]\<rparr>)
                            else Inl Exit_failure))))"

subsection \<open>\<^verbatim>\<open>string_array_from_varargs\<close>\<close>

text \<open>
  The variadic arguments are the list \<open>arg # rest\<close> of the pointers passed; the loop
  \<^verbatim>\<open>for (it = arg; it; it = va_arg(*args, char const *))\<close> reads them up to the first null
  pointer and leaves the arguments after it in the \<^verbatim>\<open>va_list\<close>.
\<close>

fun varargs_loop ::
  "heap \<Rightarrow> addr \<Rightarrow> nat \<Rightarrow> addr list \<Rightarrow> error + (addr \<times> nat \<times> heap \<times> addr list)" where
  "varargs_loop h result sz [] = Inl Fault"
| "varargs_loop h result sz (it # ap) =
     (if it = 0 then Inr (result, sz, h, ap)
      else case realloc h result (sz + 1) of
        Inl e \<Rightarrow> Inl e
      | Inr (result1, h1) \<Rightarrow>
          if result1 = 0 then Inl Exit_failure
          else
            (case strs h1 it of
               None \<Rightarrow> Inl Fault
             | Some s \<Rightarrow>
                 (case strdup h1 s of
                    (copy, h2) \<Rightarrow>
                      if copy = 0 then Inl Exit_failure
                      else
                        (case store_slot h2 result1 sz copy of
                           Inl e \<Rightarrow> Inl e
                         | Inr h3 \<Rightarrow> varargs_loop h3 result1 (Suc sz) ap))))"

definition string_array_from_varargs ::
  "heap \<Rightarrow> addr list \<Rightarrow> error + (addr \<times> heap \<times> addr list)" where
  "string_array_from_varargs h args =
     (case varargs_loop h 0 0 args of
        Inl e \<Rightarrow> Inl e
      | Inr (result, sz, h1, ap) \<Rightarrow>
          (case realloc h1 result (sz + 1) of
             Inl e \<Rightarrow> Inl e
           | Inr (result1, h2) \<Rightarrow>
               if result1 = 0 then Inl Exit_failure
               else
                 (case store_slot h2 result1 sz 0 of
                    Inl e \<Rightarrow> Inl e
                  | Inr h3 \<Rightarrow> Inr (result1, h3, ap))))"

subsection \<open>The genuine implementations and the forwarding functions\<close>

text \<open>
  What a genuine implementation is given, as it reads it from memory: \<open>None\<close> for a null
  pointer (or one that does not point to a string array), otherwise the strings of the array.
\<close>

definition peek :: "heap \<Rightarrow> addr \<Rightarrow> string list option" where
  "peek h p =
     (if p = 0 then None
      else case arrs h p of
        None \<Rightarrow> None
      | Some slots \<Rightarrow>
          if 0 \<in> set slots \<and> (\<forall>a \<in> set (takeWhile (\<lambda>a. a \<noteq> 0) slots). strs h a \<noteq> None)
          then Some (map (\<lambda>a. the (strs h a)) (takeWhile (\<lambda>a. a \<noteq> 0) slots))
          else None)"

text \<open>
  \<^verbatim>\<open>dlsym\<close> finds each genuine implementation or fails (\<open>None\<close>). An implementation is
  a function of its path, the argument strings and the environment strings it is given
  (for \<^verbatim>\<open>execvp\<close> and \<^verbatim>\<open>execvP\<close> the environment is the global \<^verbatim>\<open>environ\<close>); the handles of
  \<^verbatim>\<open>posix_spawn\<close> are passed through as numbers. Its value is the value it returns.
\<close>

type_synonym exec_fn = "string \<Rightarrow> string list option \<Rightarrow> string list option \<Rightarrow> int"
type_synonym execP_fn = "string \<Rightarrow> string \<Rightarrow> string list option \<Rightarrow> string list option \<Rightarrow> int"
type_synonym spawn_fn =
  "nat \<Rightarrow> string \<Rightarrow> nat \<Rightarrow> nat \<Rightarrow> string list option \<Rightarrow> string list option \<Rightarrow> int"

record libc =
  dl_execve :: "exec_fn option"
  dl_execvpe :: "exec_fn option"
  dl_execvp :: "exec_fn option"
  dl_execvP :: "execP_fn option"
  dl_exect :: "exec_fn option"
  dl_posix_spawn :: "spawn_fn option"
  dl_posix_spawnp :: "spawn_fn option"

definition call_execve ::
  "libc \<Rightarrow> string list \<Rightarrow> shim \<Rightarrow> string \<Rightarrow> addr \<Rightarrow> addr \<Rightarrow> error + (int \<times> shim)" where
  "call_execve lc names s path argv envp =
     (case dl_execve lc of
        None \<Rightarrow> Inl Exit_failure
      | Some fp \<Rightarrow>
          (case string_array_partial_update names (mem s) envp (initial_env s) of
             Inl e \<Rightarrow> Inl e
           | Inr (menvp, h1) \<Rightarrow>
               (let result = fp path (peek h1 argv) (peek h1 menvp)
                in case string_array_release h1 menvp of
                     Inl e \<Rightarrow> Inl e
                   | Inr h2 \<Rightarrow> Inr (result, s\<lparr>mem := h2\<rparr>))))"

definition call_execvpe ::
  "libc \<Rightarrow> string list \<Rightarrow> shim \<Rightarrow> string \<Rightarrow> addr \<Rightarrow> addr \<Rightarrow> error + (int \<times> shim)" where
  "call_execvpe lc names s file argv envp =
     (case dl_execvpe lc of
        None \<Rightarrow> Inl Exit_failure
      | Some fp \<Rightarrow>
          (case string_array_partial_update names (mem s) envp (initial_env s) of
             Inl e \<Rightarrow> Inl e
           | Inr (menvp, h1) \<Rightarrow>
               (let result = fp file (peek h1 argv) (peek h1 menvp)
                in case string_array_release h1 menvp of
                     Inl e \<Rightarrow> Inl e
                   | Inr h2 \<Rightarrow> Inr (result, s\<lparr>mem := h2\<rparr>))))"

text \<open>
  \<^verbatim>\<open>call_execvp\<close> and \<^verbatim>\<open>call_execvP\<close> point \<^verbatim>\<open>environ\<close> to the modified vector for the
  time of the call and restore it afterwards.
\<close>

definition call_execvp ::
  "libc \<Rightarrow> string list \<Rightarrow> shim \<Rightarrow> string \<Rightarrow> addr \<Rightarrow> error + (int \<times> shim)" where
  "call_execvp lc names s file argv =
     (case dl_execvp lc of
        None \<Rightarrow> Inl Exit_failure
      | Some fp \<Rightarrow>
          (let original = environ s
           in case string_array_partial_update names (mem s) original (initial_env s) of
                Inl e \<Rightarrow> Inl e
              | Inr (modified, h1) \<Rightarrow>
                  (let s1 = s\<lparr>environ := modified, mem := h1\<rparr>;
                       result = fp file (peek (mem s1) argv) (peek (mem s1) (environ s1));
                       s2 = s1\<lparr>environ := original\<rparr>
                   in case string_array_release (mem s2) modified of
                        Inl e \<Rightarrow> Inl e
                      | Inr h2 \<Rightarrow> Inr (result, s2\<lparr>mem := h2\<rparr>))))"

definition call_execvP ::
  "libc \<Rightarrow> string list \<Rightarrow> shim \<Rightarrow> string \<Rightarrow> string \<Rightarrow> addr \<Rightarrow> error + (int \<times> shim)" where
  "call_execvP lc names s file search_path argv =
     (case dl_execvP lc of
        None \<Rightarrow> Inl Exit_failure
      | Some fp \<Rightarrow>
          (let original = environ s
           in case string_array_partial_update names (mem s) original (initial_env s) of
                Inl e \<Rightarrow> Inl e
              | Inr (modified, h1) \<Rightarrow>
                  (let s1 = s\<lparr>environ := modified, mem := h1\<rparr>;
                       result = fp file search_path (peek (mem s1) argv) (peek (mem s1) (environ s1));
                       s2 = s1\<lparr>environ := original\<rparr>
                   in case string_array_release (mem s2) modified of
                        Inl e \<Rightarrow> Inl e
                      | Inr h2 \<Rightarrow> Inr (result, s2\<lparr>mem := h2\<rparr>))))"

definition call_exect ::
  "libc \<Rightarrow> string list \<Rightarrow> shim \<Rightarrow> string \<Rightarrow> addr \<Rightarrow> addr \<Rightarrow> error + (int \<times> shim)" where
  "call_exect lc names s path argv envp =
     (case dl_exect lc of
        None \<Rightarrow> Inl Exit_failure
      | Some fp \<Rightarrow>
          (case string_array_partial_update names (mem s) envp (initial_env s) of
             Inl e \<Rightarrow> Inl e
           | Inr (menvp, h1) \<Rightarrow>
               (let result = fp path (peek h1 argv) (peek h1 menvp)
                in case string_array_release h1 menvp of
                     Inl e \<Rightarrow> Inl e
                   | Inr h2 \<Rightarrow> Inr (result, s\<lparr>mem := h2\<rparr>))))"

definition call_posix_spawn ::
  "libc \<Rightarrow> string list \<Rightarrow> shim \<Rightarrow> nat \<Rightarrow> string \<Rightarrow> nat \<Rightarrow> nat \<Rightarrow> addr \<Rightarrow> addr
     \<Rightarrow> error + (int \<times> shim)" where
  "call_posix_spawn lc names s pid path file_actions attrp argv envp =
     (case dl_posix_spawn lc of
        None \<Rightarrow> Inl Exit_failure
      | Some fp \<Rightarrow>
          (case string_array_partial_update names (mem s) envp (initial_env s) of
             Inl e \<Rightarrow> Inl e
           | Inr (menvp, h1) \<Rightarrow>
               (let result = fp pid path file_actions attrp (peek h1 argv) (peek h1 menvp)
                in case string_array_release h1 menvp of
                     Inl e \<Rightarrow> Inl e
                   | Inr h2 \<Rightarrow> Inr (result, s\<lparr>mem := h2\<rparr>))))"

definition call_posix_spawnp ::
  "libc \<Rightarrow> string list \<Rightarrow> shim \<Rightarrow> nat \<Rightarrow> string \<Rightarrow> nat \<Rightarrow> nat \<Rightarrow> addr \<Rightarrow> addr
     \<Rightarrow> error + (int \<times> shim)" where
  "call_posix_spawnp lc names s pid file file_actions attrp argv envp =
     (case dl_posix_spawnp lc of
        None \<Rightarrow> Inl Exit_failure
      | Some fp \<Rightarrow>
          (case string_array_partial_update names (mem s) envp (initial_env s) of
             Inl e \<Rightarrow> Inl e
           | Inr (menvp, h1) \<Rightarrow>
               (let result = fp pid file file_actions attrp (peek h1 argv) (peek h1 menvp)
                in case string_array_release h1 menvp of
                     Inl e \<Rightarrow> Inl e
                   | Inr h2 \<Rightarrow> Inr (result, s\<lparr>mem := h2\<rparr>))))"

subsection \<open>The entry points\<close>

definition execve ::
  "sys \<Rightarrow> libc \<Rightarrow> string list \<Rightarrow> shim \<Rightarrow> string \<Rightarrow> addr \<Rightarrow> addr \<Rightarrow> error + (int \<times> shim)" where
  "execve os lc names s path argv envp =
     (case report_call os s argv of
        Inl e \<Rightarrow> Inl e
      | Inr s1 \<Rightarrow> call_execve lc names s1 path argv envp)"

definition execv ::
  "sys \<Rightarrow> libc \<Rightarrow> string list \<Rightarrow> shim \<Rightarrow> string \<Rightarrow> addr \<Rightarrow> error + (int \<times> shim)" where
  "execv os lc names s path argv =
     (case report_call os s argv of
        Inl e \<Rightarrow> Inl e
      | Inr s1 \<Rightarrow> call_execve lc names s1 path argv (environ s1))"

definition execvpe ::
  "sys \<Rightarrow> libc \<Rightarrow> string list \<Rightarrow> shim \<Rightarrow> string \<Rightarrow> addr \<Rightarrow> addr \<Rightarrow> error + (int \<times> shim)" where
  "execvpe os lc names s file argv envp =
     (case report_call os s argv of
        Inl e \<Rightarrow> Inl e
      | Inr s1 \<Rightarrow> call_execvpe lc names s1 file argv envp)"

definition execvp ::
  "sys \<Rightarrow> libc \<Rightarrow> string list \<Rightarrow> shim \<Rightarrow> string \<Rightarrow> addr \<Rightarrow> error + (int \<times> shim)" where
  "execvp os lc names s file argv =
     (case report_call os s argv of
        Inl e \<Rightarrow> Inl e
      | Inr s1 \<Rightarrow> call_execvp lc names s1 file argv)"

definition execvP ::
  "sys \<Rightarrow> libc \<Rightarrow> string list \<Rightarrow> shim \<Rightarrow> string \<Rightarrow> string \<Rightarrow> addr \<Rightarrow> error + (int \<times> shim)" where
  "execvP os lc names s file search_path argv =
     (case report_call os s argv of
        Inl e \<Rightarrow> Inl e
      | Inr s1 \<Rightarrow> call_execvP lc names s1 file search_path argv)"

definition exect ::
  "sys \<Rightarrow> libc \<Rightarrow> string list \<Rightarrow> shim \<Rightarrow> string \<Rightarrow> addr \<Rightarrow> addr \<Rightarrow> error + (int \<times> shim)" where
  "exect os lc names s path argv envp =
     (case report_call os s argv of
        Inl e \<Rightarrow> Inl e
      | Inr s1 \<Rightarrow> call_exect lc names s1 path argv envp)"

definition execl ::
  "sys \<Rightarrow> libc \<Rightarrow> string list \<Rightarrow> shim \<Rightarrow> string \<Rightarrow> addr list \<Rightarrow> error + (int \<times> shim)" where
  "execl os lc names s path args =
     (case string_array_from_varargs (mem s) args of
        Inl e \<Rightarrow> Inl e
      | Inr (argv, h1, ap) \<Rightarrow>
          (case report_call os (s\<lparr>mem := h1\<rparr>) argv of
             Inl e \<Rightarrow> Inl e
           | Inr s1 \<Rightarrow>
               (case call_execve lc names s1 path argv (environ s1) of
                  Inl e \<Rightarrow> Inl e
                | Inr (result, s2) \<Rightarrow>
                    (case string_array_release (mem s2) argv of
                       Inl e \<Rightarrow> Inl e
                     | Inr h3 \<Rightarrow> Inr (result, s2\<lparr>mem := h3\<rparr>)))))"

definition execlp ::
  "sys \<Rightarrow> libc \<Rightarrow> string list \<Rightarrow> shim \<Rightarrow> string \<Rightarrow> addr list \<Rightarrow> error + (int \<times> shim)" where
  "execlp os lc names s file args =
     (case string_array_from_varargs (mem s) args of
        Inl e \<Rightarrow> Inl e
      | Inr (argv, h1, ap) \<Rightarrow>
          (case report_call os (s\<lparr>mem := h1\<rparr>) argv of
             Inl e \<Rightarrow> Inl e
           | Inr s1 \<Rightarrow>
               (case call_execvp lc names s1 file argv of
                  Inl e \<Rightarrow> Inl e
                | Inr (result, s2) \<Rightarrow>
                    (case string_array_release (mem s2) argv of
                       Inl e \<Rightarrow> Inl e
                     | Inr h3 \<Rightarrow> Inr (result, s2\<lparr>mem := h3\<rparr>)))))"

text \<open>\<^verbatim>\<open>execle\<close> takes the environment from the variadic argument after the null pointer.\<close>

definition execle ::
  "sys \<Rightarrow> libc \<Rightarrow> string list \<Rightarrow> shim \<Rightarrow> string \<Rightarrow> addr list \<Rightarrow> error + (int \<times> shim)" where
  "execle os lc names s path args =
     (case string_array_from_varargs (mem s) args of
        Inl e \<Rightarrow> Inl e
      | Inr (argv, h1, ap) \<Rightarrow>
          (case ap of
             [] \<Rightarrow> Inl Fault
           | envp # _ \<Rightarrow>
               (case report_call os (s\<lparr>mem := h1\<rparr>) argv of
                  Inl e \<Rightarrow> Inl e
                | Inr s1 \<Rightarrow>
                    (case call_execve lc names s1 path argv envp of
                       Inl e \<Rightarrow> Inl e
                     | Inr (result, s2) \<Rightarrow>
                         (case string_array_release (mem s2) argv of
                            Inl e \<Rightarrow> Inl e
                          | Inr h3 \<Rightarrow> Inr (result, s2\<lparr>mem := h3\<rparr>))))))"

definition posix_spawn ::
  "sys \<Rightarrow> libc \<Rightarrow> string list \<Rightarrow> shim \<Rightarrow> nat \<Rightarrow> string \<Rightarrow> nat \<Rightarrow> nat \<Rightarrow> addr \<Rightarrow> addr
     \<Rightarrow> error + (int \<times> shim)" where
  "posix_spawn os lc names s pid path file_actions attrp argv envp =
     (case report_call os s argv of
        Inl e \<Rightarrow> Inl e
      | Inr s1 \<Rightarrow> call_posix_spawn lc names s1 pid path file_actions attrp argv envp)"

definition posix_spawnp ::
  "sys \<Rightarrow> libc \<Rightarrow> string list \<Rightarrow> shim \<Rightarrow> nat \<Rightarrow> string \<Rightarrow> nat \<Rightarrow> nat \<Rightarrow> addr \<Rightarrow> addr
     \<Rightarrow> error + (int \<times> shim)" where
  "posix_spawnp os lc names s pid file file_actions attrp argv envp =
     (case report_call os s argv of
        Inl e \<Rightarrow> Inl e
      | Inr s1 \<Rightarrow> call_posix_spawnp lc names s1 pid file file_actions attrp argv envp)"

section \<open>Notions used to state the properties\<close>

subsection \<open>JSON escapes\<close>

text \<open>Four hexadecimal digits of a number below \<open>65536\<close>, the \<open>XXXX\<close> of a numeric escape.\<close>

definition hex4 :: "nat \<Rightarrow> string" where
  "hex4 n = [hex_digit (n div 4096), hex_digit (n div 256), hex_digit (n div 16), hex_digit n]"

text \<open>The seven characters that have a two-character escape, with the second character.\<close>

definition short_escape :: "wchar \<Rightarrow> char option" where
  "short_escape w =
     (if w = 8 then Some CHR ''b'' else if w = 12 then Some CHR ''f''
      else if w = 10 then Some CHR ''n'' else if w = 13 then Some CHR ''r''
      else if w = 9 then Some CHR ''t'' else if w = 34 then Some dquote
      else if w = 92 then Some backslash else None)"

text \<open>
  The escape of a character as the specification words it: a numeric escape for every
  other character outside \<open>0x20\<close> to \<open>0x7E\<close>.
\<close>

definition json_escape_spec :: "wchar \<Rightarrow> string" where
  "json_escape_spec w =
     (case short_escape w of
        Some c \<Rightarrow> [backslash, c]
      | None \<Rightarrow>
          if w < 32 \<or> w > 126 then [backslash, CHR ''u''] @ hex4 (nat w) else [char_of w])"

text \<open>The same with the bound of the code: \<open>0x7F\<close> passes through.\<close>

definition json_escape :: "wchar \<Rightarrow> string" where
  "json_escape w =
     (case short_escape w of
        Some c \<Rightarrow> [backslash, c]
      | None \<Rightarrow>
          if w < 32 \<or> w > 127 then [backslash, CHR ''u''] @ hex4 (nat w) else [char_of w])"

text \<open>
  Decoding of the contents of a JSON string: the two-character escapes, numeric escapes
  (a surrogate pair gives one character above \<open>0xFFFF\<close>), and every other byte from
  \<open>0x20\<close> on for itself. \<open>None\<close> is text that is not the contents of a JSON string.
\<close>

definition hex_value :: "char \<Rightarrow> nat option" where
  "hex_value c =
     (let n = (of_char c :: nat)
      in if 48 \<le> n \<and> n \<le> 57 then Some (n - 48)
         else if 97 \<le> n \<and> n \<le> 102 then Some (n - 87)
         else if 65 \<le> n \<and> n \<le> 70 then Some (n - 55)
         else None)"

definition hex4_value :: "string \<Rightarrow> nat option" where
  "hex4_value s =
     (case map hex_value s of
        [Some a, Some b, Some c, Some d] \<Rightarrow> Some (a * 4096 + b * 256 + c * 16 + d)
      | _ \<Rightarrow> None)"

definition unescape_char :: "char \<Rightarrow> wchar option" where
  "unescape_char e =
     (if e = CHR ''b'' then Some 8 else if e = CHR ''f'' then Some 12
      else if e = CHR ''n'' then Some 10 else if e = CHR ''r'' then Some 13
      else if e = CHR ''t'' then Some 9 else if e = dquote then Some 34
      else if e = backslash then Some 92 else if e = CHR ''/'' then Some 47
      else None)"

function json_unescape :: "string \<Rightarrow> wchar list option" where
  "json_unescape [] = Some []"
| "json_unescape (c # cs) =
     (if c = backslash then
        (case cs of
           [] \<Rightarrow> None
         | e # r \<Rightarrow>
             if e = CHR ''u'' then
               (case hex4_value (take 4 r) of
                  None \<Rightarrow> None
                | Some n \<Rightarrow>
                    if 55296 \<le> n \<and> n < 56320 then
                      (case drop 4 r of
                         b # u # r2 \<Rightarrow>
                           (case hex4_value (take 4 r2) of
                              None \<Rightarrow> None
                            | Some lo \<Rightarrow>
                                if b = backslash \<and> u = CHR ''u'' \<and> 56320 \<le> lo \<and> lo < 57344
                                then map_option
                                       ((#) (int (65536 + (n - 55296) * 1024 + (lo - 56320))))
                                       (json_unescape (drop 4 r2))
                                else None)
                       | _ \<Rightarrow> None)
                    else if 56320 \<le> n \<and> n < 57344 then None
                    else map_option ((#) (int n)) (json_unescape (drop 4 r)))
             else
               (case unescape_char e of
                  None \<Rightarrow> None
                | Some w \<Rightarrow> map_option ((#) w) (json_unescape r)))
      else if c = dquote \<or> (of_char c :: nat) < 32 then None
      else map_option ((#) (of_char c)) (json_unescape cs))"
  by pat_completeness auto
termination
  by (relation "measure length") (auto dest!: arg_cong [where f = length])

text \<open>
  A code point in UTF-16, the form in which a 16-bit \<^verbatim>\<open>wchar_t\<close> holds it: itself up to
  \<open>0xFFFF\<close>, the two halves of its surrogate pair above. The code points of the characters
  of a C string are the scalar values but zero: up to \<open>0x10FFFF\<close> and no surrogates.
\<close>

definition utf16 :: "int \<Rightarrow> wchar list" where
  "utf16 c =
     (if c < 65536 then [c]
      else [55296 + (c - 65536) div 1024, 56320 + (c - 65536) mod 1024])"

definition scalar_value :: "int \<Rightarrow> bool" where
  "scalar_value c = (0 < c \<and> c < 1114112 \<and> \<not> (55296 \<le> c \<and> c < 57344))"

text \<open>The buffer holds the bytes of \<open>s\<close> from its start.\<close>

definition holds :: "buffer \<Rightarrow> string \<Rightarrow> bool" where
  "holds m s = (\<forall>i < length s. m i = Some (s ! i))"

subsection \<open>String arrays in the heap\<close>

text \<open>
  A heap is in order when nothing lives above \<open>brk\<close> and no address holds both a string
  and a block of slots.
\<close>

definition heap_ok :: "heap \<Rightarrow> bool" where
  "heap_ok h =
     (\<forall>a. (brk h < a \<longrightarrow> strs h a = None \<and> arrs h a = None)
        \<and> (strs h a = None \<or> arrs h a = None))"

text \<open>
  The block at \<open>p\<close> is a string array that holds the strings \<open>xs\<close>: it has a null slot,
  and the slots before the first null slot point to separate strings, which are \<open>xs\<close>.
\<close>

definition string_array :: "heap \<Rightarrow> addr \<Rightarrow> string list \<Rightarrow> bool" where
  "string_array h p xs =
     (case arrs h p of
        None \<Rightarrow> False
      | Some slots \<Rightarrow>
          0 \<in> set slots \<and> distinct (takeWhile (\<lambda>a. a \<noteq> 0) slots)
          \<and> map (strs h) (takeWhile (\<lambda>a. a \<noteq> 0) slots) = map Some xs)"

text \<open>An environment or argument vector: the null pointer stands for the empty vector.\<close>

definition env_vector :: "heap \<Rightarrow> addr \<Rightarrow> string list \<Rightarrow> bool" where
  "env_vector h p xs = (if p = 0 then xs = [] else string_array h p xs)"

text \<open>The addresses in the slots of the block at \<open>p\<close> before its first null slot.\<close>

definition entry_addrs :: "heap \<Rightarrow> addr \<Rightarrow> addr list" where
  "entry_addrs h p =
     (case arrs h p of None \<Rightarrow> [] | Some slots \<Rightarrow> takeWhile (\<lambda>a. a \<noteq> 0) slots)"

text \<open>Every address up to \<open>b\<close> holds in \<open>h'\<close> what it holds in \<open>h\<close>.\<close>

definition unchanged_upto :: "addr \<Rightarrow> heap \<Rightarrow> heap \<Rightarrow> bool" where
  "unchanged_upto b h h' = (\<forall>a \<le> b. strs h' a = strs h a \<and> arrs h' a = arrs h a)"

text \<open>The key component of an entry \<^verbatim>\<open>KEY=VALUE\<close>: the text before its first \<^verbatim>\<open>=\<close>.\<close>

definition key_of :: "string \<Rightarrow> string option" where
  "key_of e =
     (if CHR ''='' \<in> set e then Some (takeWhile (\<lambda>c. c \<noteq> CHR ''='') e) else None)"

text \<open>Replace the first entry that the search loop accepts, or append.\<close>

fun update_env :: "string \<Rightarrow> string \<Rightarrow> string list \<Rightarrow> string list" where
  "update_env key value [] = [key @ ''='' @ value]"
| "update_env key value (e # es) =
     (if env_match key e then (key @ ''='' @ value) # es else e # update_env key value es)"

text \<open>The layout of a string array, spelled out for the proofs.\<close>

definition layout :: "heap \<Rightarrow> addr \<Rightarrow> addr list \<Rightarrow> addr list \<Rightarrow> string list \<Rightarrow> bool" where
  "layout h p as rest xs =
     (arrs h p = Some (as @ 0 # rest) \<and> 0 \<notin> set as \<and> distinct as
      \<and> map (strs h) as = map Some xs)"

definition owned ::
  "addr \<Rightarrow> heap \<Rightarrow> addr \<Rightarrow> addr list \<Rightarrow> addr list \<Rightarrow> string list \<Rightarrow> bool" where
  "owned b h p as rest xs =
     (heap_ok h \<and> b < p \<and> (\<forall>a \<in> set as. b < a) \<and> layout h p as rest xs)"

text \<open>
  A heap for the examples: the vector \<^verbatim>\<open>["A=1", "LD_PRELOAD=old"]\<close> at address \<open>3\<close>, and
  the two strings \<^verbatim>\<open>/out\<close> and \<^verbatim>\<open>libear.so\<close> at \<open>4\<close> and \<open>5\<close>.
\<close>

definition example_heap :: heap where
  "example_heap =
     \<lparr>strs = [1 \<mapsto> ''A=1'', 2 \<mapsto> ''LD_PRELOAD=old'', 4 \<mapsto> ''/out'', 5 \<mapsto> ''libear.so''],
      arrs = [3 \<mapsto> [1, 2, 0]], brk = 5, avail = 20, garbage = 77, moves = True\<rparr>"

text \<open>
  The captured environment as the update loop reads it: the value behind each slot,
  \<open>None\<close> for a null slot.
\<close>

definition captured :: "heap \<Rightarrow> addr list \<Rightarrow> string option list" where
  "captured h env = map (\<lambda>v. if v = 0 then None else strs h v) env"

text \<open>
  The updates for the captured pairs in their order, up to the first absent value;
  and, as the specification words it, the updates for all the captured pairs.
\<close>

fun apply_updates :: "string list \<Rightarrow> string option list \<Rightarrow> string list \<Rightarrow> string list" where
  "apply_updates (key # keys) (Some value # vs) xs =
     apply_updates keys vs (update_env key value xs)"
| "apply_updates keys vs xs = xs"

fun apply_all_updates ::
  "string list \<Rightarrow> string option list \<Rightarrow> string list \<Rightarrow> string list" where
  "apply_all_updates (key # keys) (Some value # vs) xs =
     apply_all_updates keys vs (update_env key value xs)"
| "apply_all_updates (key # keys) (None # vs) xs = apply_all_updates keys vs xs"
| "apply_all_updates keys vs xs = xs"

subsection \<open>The report body\<close>

text \<open>
  A string can be encoded into \<open>n\<close> bytes when it decodes to characters up to \<open>0xFFFF\<close>
  whose escapes, with the terminating zero, fit into \<open>n\<close> bytes; its escaped text is
  the concatenation of the escapes.
\<close>

definition encodable :: "decoder \<Rightarrow> string \<Rightarrow> nat \<Rightarrow> bool" where
  "encodable mbstowcs s n =
     (case mbstowcs s of
        None \<Rightarrow> False
      | Some ws \<Rightarrow>
          list_all (\<lambda>w. 0 \<le> w \<and> w \<le> 65535) ws \<and> length (concat (map json_escape ws)) < n)"

definition escaped_text :: "decoder \<Rightarrow> string \<Rightarrow> string" where
  "escaped_text mbstowcs s =
     (case mbstowcs s of None \<Rightarrow> [] | Some ws \<Rightarrow> concat (map json_escape ws))"

text \<open>Texts separated by \<open>sep\<close>.\<close>

fun join :: "string \<Rightarrow> string list \<Rightarrow> string" where
  "join sep [] = []"
| "join sep [t] = t"
| "join sep (t # u # ts) = t @ sep @ join sep (u # ts)"

text \<open>
  The body of a report with the escaped arguments \<open>ts\<close> and the escaped directory:
  each argument after a blank and in double quotes, the arguments separated by commas.
  The second definition is the layout of the specification's example, with a blank
  before the closing bracket of a non-empty array.
\<close>

definition report_body :: "int \<Rightarrow> string list \<Rightarrow> string \<Rightarrow> string" where
  \<open>report_body pid ts dir =
     ''{ "pid": '' @ printf_d pid @ '', "cmd": ['' @ join '','' (map (\<lambda>t. '' "'' @ t @ ''"'') ts)
       @ ''], "cwd": "'' @ dir @ ''" }''\<close>

definition report_body_spec :: "int \<Rightarrow> string list \<Rightarrow> string \<Rightarrow> string" where
  \<open>report_body_spec pid ts dir =
     ''{ "pid": '' @ printf_d pid @ '', "cmd": ['' @ join '','' (map (\<lambda>t. '' "'' @ t @ ''"'') ts)
       @ (if ts = [] then [] else '' '') @ ''], "cwd": "'' @ dir @ ''" }''\<close>

text \<open>The text that the loop over the arguments writes, by its flag \<open>first\<close>.\<close>

fun cmd_items :: "bool \<Rightarrow> string list \<Rightarrow> string" where
  \<open>cmd_items first [] = []\<close>
| \<open>cmd_items first (t # ts) =
     (if first then [] else '','') @ '' "'' @ t @ ''"'' @ cmd_items False ts\<close>

text \<open>
  A heap with the argument vector \<^verbatim>\<open>["/bin/echo", "a\"b"]\<close> at address \<open>3\<close> and the
  directory \<^verbatim>\<open>/tmp\<close> at address \<open>4\<close>.
\<close>

definition argv_heap :: heap where
  \<open>argv_heap =
     \<lparr>strs = [1 \<mapsto> ''/bin/echo'', 2 \<mapsto> ''a"b'', 4 \<mapsto> ''/tmp''], arrs = [3 \<mapsto> [1, 2, 0]],
      brk = 4, avail = 20, garbage = 77, moves = True\<rparr>\<close>


subsection \<open>An example system\<close>

text \<open>
  A heap with nothing in it, and a system in which only \<^verbatim>\<open>LD_PRELOAD\<close> is set, or only
  the output directory.
\<close>

definition empty_heap :: heap where
  "empty_heap =
     \<lparr>strs = Map.empty, arrs = Map.empty, brk = 0, avail = 20, garbage = 77, moves = True\<rparr>"

definition preload_only :: sys where
  "preload_only =
     \<lparr>getenv = [''LD_PRELOAD'' \<mapsto> ''libear.so''], newlocale = 1, uselocale = (\<lambda>l. 1),
      mbstowcs_of = utf8_mbstowcs, mkstemp = (\<lambda>t. Some t), getcwd = Some ''/tmp'',
      getpid = 4242, disk_room = 1000, close_ok = True\<rparr>"

definition output_only :: sys where
  "output_only = preload_only\<lparr>getenv := [ENV_OUTPUT \<mapsto> ''/out'']\<rparr>"

text \<open>
  A system in which both variables are set, and a heap with memory for one allocation.
\<close>

definition both_set :: sys where
  "both_set = preload_only\<lparr>getenv := [ENV_OUTPUT \<mapsto> ''/out'', ''LD_PRELOAD'' \<mapsto> ''libear.so'']\<rparr>"

definition tight_heap :: heap where
  "tight_heap = empty_heap\<lparr>avail := 1\<rparr>"

subsection \<open>A call of an entry point\<close>

text \<open>
  The intercepted entry points with their arguments: paths as strings, vectors as
  pointers, the variadic arguments as the list of the pointers passed, the handles of
  \<^verbatim>\<open>posix_spawn\<close> as numbers. \<open>intercept\<close> runs the entry point of the library.
\<close>

datatype call =
    Execve string addr addr
  | Execv string addr
  | Execvpe string addr addr
  | Execvp string addr
  | ExecvP string string addr
  | Exect string addr addr
  | Execl string "addr list"
  | Execlp string "addr list"
  | Execle string "addr list"
  | Posix_spawn nat string nat nat addr addr
  | Posix_spawnp nat string nat nat addr addr

fun intercept :: "sys \<Rightarrow> libc \<Rightarrow> string list \<Rightarrow> shim \<Rightarrow> call \<Rightarrow> error + (int \<times> shim)" where
  "intercept os lc names s (Execve path argv envp) = execve os lc names s path argv envp"
| "intercept os lc names s (Execv path argv) = execv os lc names s path argv"
| "intercept os lc names s (Execvpe file argv envp) = execvpe os lc names s file argv envp"
| "intercept os lc names s (Execvp file argv) = execvp os lc names s file argv"
| "intercept os lc names s (ExecvP file search_path argv) =
     execvP os lc names s file search_path argv"
| "intercept os lc names s (Exect path argv envp) = exect os lc names s path argv envp"
| "intercept os lc names s (Execl path args) = execl os lc names s path args"
| "intercept os lc names s (Execlp file args) = execlp os lc names s file args"
| "intercept os lc names s (Execle path args) = execle os lc names s path args"
| "intercept os lc names s (Posix_spawn pid path file_actions attrp argv envp) =
     posix_spawn os lc names s pid path file_actions attrp argv envp"
| "intercept os lc names s (Posix_spawnp pid file file_actions attrp argv envp) =
     posix_spawnp os lc names s pid file file_actions attrp argv envp"

text \<open>
  The strings of the variadic arguments up to the null pointer, and the argument that
  follows the null pointer.
\<close>

definition va_view :: "heap \<Rightarrow> addr list \<Rightarrow> string list option" where
  "va_view h args =
     (if 0 \<in> set args \<and> (\<forall>a \<in> set (takeWhile (\<lambda>a. a \<noteq> 0) args). strs h a \<noteq> None)
      then Some (map (\<lambda>a. the (strs h a)) (takeWhile (\<lambda>a. a \<noteq> 0) args))
      else None)"

definition va_next :: "addr list \<Rightarrow> addr" where
  "va_next args = (case dropWhile (\<lambda>a. a \<noteq> 0) args of _ # envp # _ \<Rightarrow> envp | _ \<Rightarrow> 0)"

text \<open>
  The genuine implementation called directly on the arguments of the call, in the state
  of the caller: the value it returns, or \<open>None\<close> when the symbol is not found. The
  library forwards \<^verbatim>\<open>execv\<close>, \<^verbatim>\<open>execl\<close> and \<^verbatim>\<open>execle\<close> to the genuine \<^verbatim>\<open>execve\<close> and
  \<^verbatim>\<open>execlp\<close> to the genuine \<^verbatim>\<open>execvp\<close>, with \<^verbatim>\<open>environ\<close> as the environment.
\<close>

fun direct :: "libc \<Rightarrow> shim \<Rightarrow> call \<Rightarrow> int option" where
  "direct lc s (Execve path argv envp) =
     map_option (\<lambda>fp. fp path (peek (mem s) argv) (peek (mem s) envp)) (dl_execve lc)"
| "direct lc s (Execv path argv) =
     map_option (\<lambda>fp. fp path (peek (mem s) argv) (peek (mem s) (environ s))) (dl_execve lc)"
| "direct lc s (Execvpe file argv envp) =
     map_option (\<lambda>fp. fp file (peek (mem s) argv) (peek (mem s) envp)) (dl_execvpe lc)"
| "direct lc s (Execvp file argv) =
     map_option (\<lambda>fp. fp file (peek (mem s) argv) (peek (mem s) (environ s))) (dl_execvp lc)"
| "direct lc s (ExecvP file search_path argv) =
     map_option (\<lambda>fp. fp file search_path (peek (mem s) argv) (peek (mem s) (environ s)))
       (dl_execvP lc)"
| "direct lc s (Exect path argv envp) =
     map_option (\<lambda>fp. fp path (peek (mem s) argv) (peek (mem s) envp)) (dl_exect lc)"
| "direct lc s (Execl path args) =
     map_option (\<lambda>fp. fp path (va_view (mem s) args) (peek (mem s) (environ s))) (dl_execve lc)"
| "direct lc s (Execlp file args) =
     map_option (\<lambda>fp. fp file (va_view (mem s) args) (peek (mem s) (environ s))) (dl_execvp lc)"
| "direct lc s (Execle path args) =
     map_option (\<lambda>fp. fp path (va_view (mem s) args) (peek (mem s) (va_next args)))
       (dl_execve lc)"
| "direct lc s (Posix_spawn pid path file_actions attrp argv envp) =
     map_option (\<lambda>fp. fp pid path file_actions attrp (peek (mem s) argv) (peek (mem s) envp))
       (dl_posix_spawn lc)"
| "direct lc s (Posix_spawnp pid file file_actions attrp argv envp) =
     map_option (\<lambda>fp. fp pid file file_actions attrp (peek (mem s) argv) (peek (mem s) envp))
       (dl_posix_spawnp lc)"

text \<open>
  The vectors of a call: the argument vector (a pointer, or the variadic arguments) and
  the pointer to the environment that the genuine implementation is to see.
\<close>

fun call_argv :: "call \<Rightarrow> addr + addr list" where
  "call_argv (Execve path argv envp) = Inl argv"
| "call_argv (Execv path argv) = Inl argv"
| "call_argv (Execvpe file argv envp) = Inl argv"
| "call_argv (Execvp file argv) = Inl argv"
| "call_argv (ExecvP file search_path argv) = Inl argv"
| "call_argv (Exect path argv envp) = Inl argv"
| "call_argv (Execl path args) = Inr args"
| "call_argv (Execlp file args) = Inr args"
| "call_argv (Execle path args) = Inr args"
| "call_argv (Posix_spawn pid path file_actions attrp argv envp) = Inl argv"
| "call_argv (Posix_spawnp pid file file_actions attrp argv envp) = Inl argv"

fun call_envp :: "shim \<Rightarrow> call \<Rightarrow> addr" where
  "call_envp s (Execve path argv envp) = envp"
| "call_envp s (Execv path argv) = environ s"
| "call_envp s (Execvpe file argv envp) = envp"
| "call_envp s (Execvp file argv) = environ s"
| "call_envp s (ExecvP file search_path argv) = environ s"
| "call_envp s (Exect path argv envp) = envp"
| "call_envp s (Execl path args) = environ s"
| "call_envp s (Execlp file args) = environ s"
| "call_envp s (Execle path args) = va_next args"
| "call_envp s (Posix_spawn pid path file_actions attrp argv envp) = envp"
| "call_envp s (Posix_spawnp pid file file_actions attrp argv envp) = envp"

text \<open>
  A call is well formed when its argument vector is the null pointer or a string
  array (for a variadic call: strings up to a null pointer) and its environment is a
  string array; \<open>call_cost\<close> bounds the number of allocations the library makes for it.
\<close>

definition call_ok :: "shim \<Rightarrow> call \<Rightarrow> bool" where
  "call_ok s c =
     ((case call_argv c of
         Inl argv \<Rightarrow> argv = 0 \<or> peek (mem s) argv \<noteq> None
       | Inr args \<Rightarrow> va_view (mem s) args \<noteq> None)
      \<and> peek (mem s) (call_envp s c) \<noteq> None)"

definition call_cost :: "shim \<Rightarrow> call \<Rightarrow> nat" where
  "call_cost s c =
     (case call_argv c of Inl argv \<Rightarrow> 0 | Inr args \<Rightarrow> 2 * length args + 1)
     + length (the (peek (mem s) (call_envp s c))) + 1"

text \<open>
  For the examples: a heap with an empty environment vector at address \<open>1\<close>, and a
  C library whose \<^verbatim>\<open>execve\<close> returns \<open>0\<close> for an empty environment and \<open>1\<close> otherwise.
\<close>

definition vector_heap :: heap where
  "vector_heap =
     \<lparr>strs = Map.empty, arrs = [1 \<mapsto> [0]], brk = 1, avail = 20, garbage = 77, moves = True\<rparr>"

definition probe_libc :: libc where
  "probe_libc =
     \<lparr>dl_execve = Some (\<lambda>path argv envp. if envp = Some [] then 0 else 1),
      dl_execvpe = None, dl_execvp = None, dl_execvP = None, dl_exect = None,
      dl_posix_spawn = None, dl_posix_spawnp = None\<rparr>"

section \<open>Properties of the encoder\<close>

lemma store_bytes_apply:
  "store_bytes m p s i = (if p \<le> i \<and> i < p + length s then Some (s ! (i - p)) else m i)"
proof (induction s arbitrary: m p i)
  case Nil
  then show ?case by auto
next
  case (Cons c cs)
  show ?case by (auto simp: Cons.IH nth_Cons')
qed

lemma holds_store:
  assumes "holds m pre"
  shows "holds (store_bytes m (length pre) (s @ t)) (pre @ s)"
  using assms by (auto simp: holds_def store_bytes_apply nth_append)

lemma holds_update:
  assumes "holds m pre"
  shows "holds (m(length pre \<mapsto> c)) (pre @ [c])"
  using assms by (auto simp: holds_def nth_append)

lemma hex_digit_0: "hex_digit 0 = CHR ''0''"
  by (simp add: hex_digit_def)


lemma replicate_small:
  "replicate 3 c = [c, c, c]" "replicate 2 c = [c, c]" "replicate (Suc 0) c = [c]"
  by (simp_all add: numeral_3_eq_3 numeral_2_eq_2)

lemma printf_04x_hex4:
  assumes "n < 65536"
  shows "printf_04x n = hex4 n"
proof -
  consider "n < 16" | "16 \<le> n" "n < 256" | "256 \<le> n" "n < 4096" | "4096 \<le> n"
    by linarith
  then show ?thesis
  proof cases
    case 1
    then show ?thesis
      by (simp add: printf_04x_def hex4_def hex_of.simps [of n] hex_digit_0 replicate_small)
  next
    case 2
    then have "n div 16 < 16" by simp
    with 2 show ?thesis
      by (simp add: printf_04x_def hex4_def hex_of.simps [of n] hex_of.simps [of "n div 16"]
          hex_digit_0 replicate_small)
  next
    case 3
    then have a: "\<not> n div 16 < 16" and b: "n div 16 div 16 < 16" by simp_all
    have c: "n div 16 div 16 = n div 256" by (simp add: div_mult2_eq)
    from 3 a b c show ?thesis
      by (simp add: printf_04x_def hex4_def hex_of.simps [of n] hex_of.simps [of "n div 16"]
          hex_of.simps [of "n div 256"] hex_digit_0 replicate_small)
  next
    case 4
    with assms have a: "\<not> n div 16 < 16" and b: "\<not> n div 16 div 16 < 16"
      and d: "n div 16 div 16 div 16 < 16" by simp_all
    have c: "n div 16 div 16 = n div 256" "n div 256 div 16 = n div 4096"
      by (simp_all add: div_mult2_eq)
    from 4 a b c d show ?thesis
      by (simp add: printf_04x_def hex4_def hex_of.simps [of n] hex_of.simps [of "n div 16"]
          hex_of.simps [of "n div 256"] hex_of.simps [of "n div 4096"])
  qed
qed

lemma length_hex4 [simp]: "length (hex4 n) = 4"
  by (simp add: hex4_def)

lemma json_escape_cases:
  "json_escape w =
     (if w = 8 then [backslash, CHR ''b''] else if w = 12 then [backslash, CHR ''f'']
      else if w = 10 then [backslash, CHR ''n''] else if w = 13 then [backslash, CHR ''r'']
      else if w = 9 then [backslash, CHR ''t''] else if w = 34 then [backslash, dquote]
      else if w = 92 then [backslash, backslash]
      else if w < 32 \<or> w > 127 then [backslash, CHR ''u''] @ hex4 (nat w) else [char_of w])"
  by (simp add: json_escape_def short_escape_def)

lemma to_unsigned_bmp: "0 \<le> w \<Longrightarrow> w \<le> 65535 \<Longrightarrow> to_unsigned w = nat w"
  by (simp add: to_unsigned_def)

lemma snprintf_holds:
  assumes "holds m pre" and "length s < n"
  shows "snprintf m (length pre) n s = (length s, store_bytes m (length pre) (s @ [NUL]))"
    and "holds (store_bytes m (length pre) (s @ [NUL])) (pre @ s)"
  using assms by (auto simp: snprintf_def holds_store)

lemma encode_loop_Cons:
  "encode_loop (w # ws) dst_end p m =
     (if p \<ge> dst_end then (- 1, m)
      else case short_escape w of
        Some c \<Rightarrow>
          (case snprintf m p 3 [backslash, c] of (k, m') \<Rightarrow> encode_loop ws dst_end (p + k) m')
      | None \<Rightarrow>
          if w < 32 \<or> w > 127 then
            (case snprintf m p 7 ([backslash, CHR ''u''] @ printf_04x (to_unsigned w)) of
               (k, m') \<Rightarrow> encode_loop ws dst_end (p + k) m')
          else encode_loop ws dst_end (Suc p) (m(p \<mapsto> char_of w)))"
  by (simp add: short_escape_def)

lemma encode_step:
  assumes "holds m pre" and "0 \<le> w" and "w \<le> 65535" and "length pre < dst_end"
  shows "\<exists>m1. encode_loop (w # ws) dst_end (length pre) m
            = encode_loop ws dst_end (length pre + length (json_escape w)) m1
          \<and> holds m1 (pre @ json_escape w)"
proof (cases "short_escape w")
  case (Some c)
  have "length [backslash, c] < 3" by simp
  from snprintf_holds [OF assms(1) this] Some assms(4) show ?thesis
    by (auto simp: encode_loop_Cons json_escape_def simp del: encode_loop.simps)
next
  case None
  show ?thesis
  proof (cases "w < 32 \<or> w > 127")
    case True
    have "length ([backslash, CHR ''u''] @ hex4 (nat w)) < 7" by simp
    from snprintf_holds [OF assms(1) this] None True assms(2,3,4) show ?thesis
      by (auto simp: encode_loop_Cons json_escape_def to_unsigned_bmp printf_04x_hex4
          simp del: encode_loop.simps)
  next
    case False
    with None assms(4) holds_update [OF assms(1), of "char_of w"] show ?thesis
      by (auto simp: encode_loop_Cons json_escape_def simp del: encode_loop.simps)
  qed
qed

lemma encode_loop_holds:
  assumes "holds m pre" and "\<forall>w \<in> set ws. 0 \<le> w \<and> w \<le> 65535"
    and "length pre + length (concat (map json_escape ws)) < dst_end"
  shows "\<exists>m1. encode_loop ws dst_end (length pre) m = (0, m1)
          \<and> holds m1 (pre @ concat (map json_escape ws) @ [NUL])"
  using assms
proof (induction ws arbitrary: m pre)
  case Nil
  then show ?case using holds_update [of m pre NUL] by simp
next
  case (Cons w ws)
  from Cons.prems have w: "0 \<le> w" "w \<le> 65535" and l: "length pre < dst_end" by auto
  from encode_step [OF Cons.prems(1) w l, of ws] obtain m1 where
    step: "encode_loop (w # ws) dst_end (length pre) m
             = encode_loop ws dst_end (length (pre @ json_escape w)) m1"
    and h1: "holds m1 (pre @ json_escape w)" by auto
  from Cons.prems have "\<forall>w \<in> set ws. 0 \<le> w \<and> w \<le> 65535"
    and "length (pre @ json_escape w) + length (concat (map json_escape ws)) < dst_end" by auto
  from Cons.IH [OF h1 this] step show ?case by (simp del: encode_loop.simps)
qed

lemma c_string_at:
  assumes "\<forall>i < length s. m (p + i) = Some (s ! i)" and "m (p + length s) = Some NUL"
    and "NUL \<notin> set s" and "length s < n"
  shows "c_string m p n = Some s"
  using assms
proof (induction s arbitrary: p n)
  case Nil
  then show ?case by (cases n) auto
next
  case (Cons c cs)
  from Cons.prems(4) obtain k where n: "n = Suc k" and k: "length cs < k" by (cases n) auto
  from Cons.prems(1) have c: "m p = Some c" by fastforce
  from Cons.prems(1) have "\<forall>i < length cs. m (Suc p + i) = Some (cs ! i)" by fastforce
  moreover from Cons.prems(2) have "m (Suc p + length cs) = Some NUL" by simp
  ultimately have "c_string m (Suc p) k = Some cs"
    using Cons.IH [of "Suc p" k] Cons.prems(3) k by simp
  with c n Cons.prems(3) show ?case by auto
qed

lemma c_string_holds:
  assumes "holds m (s @ [NUL])" and "NUL \<notin> set s" and "length s < n"
  shows "c_string m 0 n = Some s"
proof (rule c_string_at)
  show "\<forall>i < length s. m (0 + i) = Some (s ! i)"
    using assms(1) by (auto simp: holds_def nth_append split: if_splits)
  show "m (0 + length s) = Some NUL"
    using assms(1) by (auto simp: holds_def nth_append split: if_splits)
qed (use assms in auto)

lemma hex_digit_in: "hex_digit d \<in> set ''0123456789abcdef''"
  unfolding hex_digit_def by (rule nth_mem) simp

lemma hex_digit_not_NUL: "hex_digit d \<noteq> NUL"
  using hex_digit_in [of d] by (auto simp: NUL_def)

lemma char_of_not_NUL:
  assumes "32 \<le> w" and "w \<le> (127::int)"
  shows "char_of w \<noteq> NUL"
proof
  assume "char_of w = NUL"
  then have "(of_char (char_of w) :: int) = of_char NUL" by simp
  with assms show False by (simp add: NUL_def)
qed

lemma short_escape_no_NUL: "short_escape w = Some c \<Longrightarrow> c \<noteq> NUL"
  by (auto simp: short_escape_def NUL_def backslash_def dquote_def split: if_splits)

lemma backslash_not_NUL: "backslash \<noteq> NUL"
  by (simp add: backslash_def NUL_def)

lemma json_escape_no_NUL:
  "NUL \<notin> set (json_escape w)"
proof (cases "short_escape w")
  case (Some c)
  with short_escape_no_NUL [OF Some] backslash_not_NUL show ?thesis
    by (auto simp: json_escape_def)
next
  case None
  show ?thesis
  proof (cases "w < 32 \<or> w > 127")
    case True
    have "CHR ''u'' \<noteq> NUL" by (simp add: NUL_def)
    with None True backslash_not_NUL show ?thesis
      by (auto simp: json_escape_def hex4_def hex_digit_not_NUL [THEN not_sym])
  next
    case False
    with None char_of_not_NUL [of w] show ?thesis
      by (auto simp: json_escape_def)
  qed
qed

subsection \<open>Evaluation on concrete strings\<close>

lemma c_string_numeral:
  "c_string m p (numeral k) =
     (case m p of
        None \<Rightarrow> None
      | Some c \<Rightarrow>
          if c = NUL then Some [] else map_option ((#) c) (c_string m (Suc p) (pred_numeral k)))"
  by (simp add: numeral_eq_Suc)

lemmas eval_encoder =
  encode_json_string_def utf8_mbstowcs_def cont_byte_def snprintf_def printf_04x_def
  to_unsigned_def hex_of.simps hex_digit_def c_string_numeral NUL_def backslash_def dquote_def
  char_of_def

subsection \<open>The escape of each character\<close>

text \<open>
  Claim C2, as amended. Let the string decode to wide characters that are all in the
  range \<open>0\<close> to \<open>0xFFFF\<close>, and let the destination have room for the escaped text and its
  terminating zero. Then \<^verbatim>\<open>encode_json_string\<close> returns \<open>0\<close> and the destination holds,
  as a C string, the concatenation of the escapes of the characters: backspace, form feed,
  newline, carriage return, tab, double quote and backslash become their two-character
  escapes; every other character below \<open>0x20\<close> or above \<open>0x7F\<close> becomes
  \<^verbatim>\<open>\u\<close> followed by the four lower-case hexadecimal digits of its code point; every other
  character, \<open>0x7F\<close> included, is copied unchanged.
\<close>

theorem encode_json_string_escapes:
  assumes "mbstowcs src = Some ws"
    and "\<forall>w \<in> set ws. 0 \<le> w \<and> w \<le> 65535"
    and "length (concat (map json_escape ws)) < dst_size"
  shows "\<exists>m. encode_json_string mbstowcs src dst_size = (0, m)
          \<and> c_string m 0 dst_size = Some (concat (map json_escape ws))"
proof -
  have "holds Map.empty []" by (simp add: holds_def)
  from encode_loop_holds [OF this assms(2)] assms(3) obtain m where
    m: "encode_loop ws dst_size 0 Map.empty = (0, m)"
    and h: "holds m (concat (map json_escape ws) @ [NUL])" by auto
  have "NUL \<notin> set (concat (map json_escape ws))" by (auto simp: json_escape_no_NUL)
  from c_string_holds [OF h this assms(3)] m assms(1) show ?thesis
    by (simp add: encode_json_string_def)
qed

text \<open>
  The theorem at the UTF-8 string \<^verbatim>\<open>a"\n\<close> followed by U+00E9 (bytes \<open>C3 A9\<close>), with a
  destination of \<open>6 * 5 + 1\<close> bytes: the result is \<^verbatim>\<open>a\"\n\u00e9\<close>.
\<close>

theorem encode_json_string_escapes_witness:
  "utf8_mbstowcs [CHR ''a'', CHR 0x22, CHR 0x0A, CHR 0xC3, CHR 0xA9] = Some [97, 34, 10, 233]
   \<and> length (concat (map json_escape [97, 34, 10, 233])) < 31
   \<and> (\<exists>m. encode_json_string utf8_mbstowcs [CHR ''a'', CHR 0x22, CHR 0x0A, CHR 0xC3, CHR 0xA9] 31
             = (0, m)
          \<and> c_string m 0 31
             = Some [CHR ''a'', backslash, dquote, backslash, CHR ''n'',
                     backslash, CHR ''u'', CHR ''0'', CHR ''0'', CHR ''e'', CHR ''9''])"
proof -
  have d: "utf8_mbstowcs [CHR ''a'', CHR 0x22, CHR 0x0A, CHR 0xC3, CHR 0xA9] = Some [97, 34, 10, 233]"
    by (simp add: utf8_mbstowcs_def cont_byte_def)
  have e: "concat (map json_escape [97, 34, 10, 233])
       = [CHR ''a'', backslash, dquote, backslash, CHR ''n'',
          backslash, CHR ''u'', CHR ''0'', CHR ''0'', CHR ''e'', CHR ''9'']"
    by (simp add: json_escape_def short_escape_def hex4_def hex_digit_def char_of_def)
  have r: "\<forall>w \<in> set [97, 34, 10, 233 :: int]. 0 \<le> w \<and> w \<le> 65535" by simp
  have l: "length (concat (map json_escape [97, 34, 10, 233])) < 31" unfolding e by simp
  from encode_json_string_escapes [of utf8_mbstowcs _ "[97, 34, 10, 233]" 31, OF d r l] d e l
  show ?thesis by simp
qed

text \<open>
  Claim C2 as stated fails at the character \<open>0x7F\<close>: the claim asks for the numeric
  escape \<^verbatim>\<open>\u007f\<close>, the encoder copies the byte.
\<close>

theorem encode_json_string_del_counterexample:
  "fst (encode_json_string utf8_mbstowcs [CHR 0x7F] 7) = 0
   \<and> c_string (snd (encode_json_string utf8_mbstowcs [CHR 0x7F] 7)) 0 7 = Some [CHR 0x7F]
   \<and> json_escape_spec 127 = [backslash, CHR ''u'', CHR ''0'', CHR ''0'', CHR ''7'', CHR ''f'']"
  by (simp add: eval_encoder json_escape_spec_def short_escape_def hex4_def)

subsection \<open>Decoding the escapes\<close>

lemma hex_value_digit: "hex_value (hex_digit d) = Some (d mod 16)"
proof -
  define k where "k = d mod 16"
  have "k < 16" by (simp add: k_def)
  then have "k = 0 \<or> k = 1 \<or> k = 2 \<or> k = 3 \<or> k = 4 \<or> k = 5 \<or> k = 6 \<or> k = 7
      \<or> k = 8 \<or> k = 9 \<or> k = 10 \<or> k = 11 \<or> k = 12 \<or> k = 13 \<or> k = 14 \<or> k = 15"
    by arith
  then have "hex_value (''0123456789abcdef'' ! k) = Some k"
    by (elim disjE) (simp_all add: hex_value_def)
  then show ?thesis by (simp add: hex_digit_def k_def)
qed

lemma radix16:
  fixes n :: nat
  assumes "n = 16 * q1 + r1" and "q1 = 16 * q2 + r2" and "q2 = 16 * q3 + r3"
  shows "q3 * 4096 + r3 * 256 + r2 * 16 + r1 = n"
  using assms by simp

lemma hex4_value_hex4:
  assumes "n < 65536"
  shows "hex4_value (hex4 n) = Some n"
proof -
  have a: "n div 4096 mod 16 = n div 4096" using assms by simp
  have d: "n div 16 div 16 = n div 256" "n div 256 div 16 = n div 4096"
    by (simp_all add: div_mult2_eq)
  have 1: "n = 16 * (n div 16) + n mod 16" by simp
  have 2: "n div 16 = 16 * (n div 256) + n div 16 mod 16"
    using mult_div_mod_eq [of 16 "n div 16"] by (simp only: d)
  have 3: "n div 256 = 16 * (n div 4096) + n div 256 mod 16"
    using mult_div_mod_eq [of 16 "n div 256"] by (simp only: d)
  from radix16 [OF 1 2 3] a show ?thesis
    by (simp add: hex4_value_def hex4_def hex_value_digit)
qed

lemma take4_hex4 [simp]: "take 4 (hex4 n @ r) = hex4 n" "drop 4 (hex4 n @ r) = r"
  by (simp_all add: hex4_def)

lemma json_unescape_short:
  assumes "short_escape w = Some e"
  shows "json_unescape (backslash # e # rest) = map_option ((#) w) (json_unescape rest)"
  using assms
  by (auto simp: short_escape_def unescape_char_def backslash_def dquote_def split: if_splits)

lemma json_unescape_numeric:
  assumes "n < 65536" and "\<not> (55296 \<le> n \<and> n < 57344)"
  shows "json_unescape (backslash # CHR ''u'' # hex4 n @ rest)
           = map_option ((#) (int n)) (json_unescape rest)"
  using assms hex4_value_hex4 [OF assms(1)] by auto

lemma json_unescape_pair:
  assumes "55296 \<le> hi" and "hi < 56320" and "56320 \<le> lo" and "lo < 57344"
  shows "json_unescape (backslash # CHR ''u'' # hex4 hi @ backslash # CHR ''u'' # hex4 lo @ rest)
           = map_option ((#) (int (65536 + (hi - 55296) * 1024 + (lo - 56320))))
               (json_unescape rest)"
proof -
  have "hi < 65536" "lo < 65536" using assms by simp_all
  from hex4_value_hex4 [OF this(1)] hex4_value_hex4 [OF this(2)] assms show ?thesis by simp
qed

lemma json_unescape_raw:
  assumes "32 \<le> w" and "w \<le> 127" and "w \<noteq> 34" and "w \<noteq> 92"
  shows "json_unescape (char_of w # rest) = map_option ((#) w) (json_unescape rest)"
proof -
  have o: "(of_char (char_of w :: char) :: int) = w" using assms by simp
  have "char_of w \<noteq> backslash"
  proof
    assume "char_of w = backslash"
    then have "(of_char (char_of w :: char) :: int) = of_char backslash" by simp
    with o assms show False by (simp add: backslash_def)
  qed
  moreover have "char_of w \<noteq> dquote"
  proof
    assume "char_of w = dquote"
    then have "(of_char (char_of w :: char) :: int) = of_char dquote" by simp
    with o assms show False by (simp add: dquote_def)
  qed
  moreover have "\<not> (of_char (char_of w :: char) :: nat) < 32"
  proof -
    have "int (of_char (char_of w :: char)) = w" using o by (simp only: of_nat_of_char)
    with assms show ?thesis by linarith
  qed
  ultimately show ?thesis using o by simp
qed

lemma json_unescape_utf16:
  assumes "scalar_value c"
  shows "json_unescape (concat (map json_escape (utf16 c)) @ rest)
           = map_option ((#) c) (json_unescape rest)"
proof (cases "c < 65536")
  case True
  then have u: "utf16 c = [c]" by (simp add: utf16_def)
  show ?thesis
  proof (cases "short_escape c")
    case (Some e)
    with json_unescape_short [OF Some, of rest] u show ?thesis
      by (simp add: json_escape_def del: json_unescape.simps)
  next
    case None
    then have n: "c \<noteq> 34" "c \<noteq> 92" by (auto simp: short_escape_def split: if_splits)
    show ?thesis
    proof (cases "c < 32 \<or> c > 127")
      case t: True
      from assms True have "nat c < 65536" "\<not> (55296 \<le> nat c \<and> nat c < 57344)" "int (nat c) = c"
        by (auto simp: scalar_value_def)
      with json_unescape_numeric [of "nat c" rest] None t u show ?thesis
        by (simp add: json_escape_def del: json_unescape.simps)
    next
      case False
      with json_unescape_raw [of c rest] n None u show ?thesis
        by (simp add: json_escape_def del: json_unescape.simps)
    qed
  qed
next
  case False
  define hi where "hi = 55296 + (c - 65536) div 1024"
  define lo where "lo = 56320 + (c - 65536) mod 1024"
  from False have u: "utf16 c = [hi, lo]" by (simp add: utf16_def hi_def lo_def)
  from False assms have r: "0 \<le> c - 65536" "c - 65536 < 1048576"
    by (simp_all add: scalar_value_def)
  then have "(c - 65536) div 1024 < 1024" by simp
  moreover from r have "0 \<le> (c - 65536) div 1024" by simp
  ultimately have hr: "55296 \<le> hi" "hi < 56320" by (simp_all add: hi_def)
  have lr: "56320 \<le> lo" "lo < 57344" by (simp_all add: lo_def)
  have eh: "json_escape hi = [backslash, CHR ''u''] @ hex4 (nat hi)"
    using hr by (simp add: json_escape_def short_escape_def)
  have el: "json_escape lo = [backslash, CHR ''u''] @ hex4 (nat lo)"
    using lr by (simp add: json_escape_def short_escape_def)
  have nh: "55296 \<le> nat hi" "nat hi < 56320" and nl: "56320 \<le> nat lo" "nat lo < 57344"
    using hr lr by simp_all
  have "int (65536 + (nat hi - 55296) * 1024 + (nat lo - 56320)) = c"
  proof -
    have "int (nat hi - 55296) = (c - 65536) div 1024" using hr by (simp add: hi_def)
    moreover have "int (nat lo - 56320) = (c - 65536) mod 1024" using lr by (simp add: lo_def)
    moreover have "(c - 65536) div 1024 * 1024 + (c - 65536) mod 1024 = c - 65536" by simp
    ultimately show ?thesis by simp
  qed
  with json_unescape_pair [OF nh nl, of rest] u eh el show ?thesis
    by (simp del: json_unescape.simps)
qed

lemma json_unescape_escapes:
  assumes "\<forall>c \<in> set cps. scalar_value c"
  shows "json_unescape (concat (map json_escape (concat (map utf16 cps)))) = Some cps"
  using assms
proof (induction cps)
  case Nil
  then show ?case by simp
next
  case (Cons c cps)
  then have "scalar_value c" and "json_unescape (concat (map json_escape (concat (map utf16 cps)))) = Some cps"
    by simp_all
  with json_unescape_utf16 [of c "concat (map json_escape (concat (map utf16 cps)))"]
  show ?case by (simp del: json_unescape.simps)
qed

lemma utf16_units:
  assumes "scalar_value c"
  shows "\<forall>w \<in> set (utf16 c). 0 \<le> w \<and> w \<le> 65535"
proof (cases "c < 65536")
  case True
  with assms show ?thesis by (simp add: utf16_def scalar_value_def)
next
  case False
  from False assms have r: "0 \<le> c - 65536" "c - 65536 < 1048576"
    by (simp_all add: scalar_value_def)
  then have "(c - 65536) div 1024 < 1024" by simp
  moreover from r have "0 \<le> (c - 65536) div 1024" by simp
  moreover have "0 \<le> (c - 65536) mod 1024" "(c - 65536) mod 1024 < 1024" by simp_all
  ultimately show ?thesis using False by (simp add: utf16_def)
qed

lemma encode_loop_success:
  assumes "holds m pre" and "\<forall>w \<in> set ws. 0 \<le> w \<and> w \<le> 65535"
    and "fst (encode_loop ws dst_end (length pre) m) = 0"
  shows "length pre + length (concat (map json_escape ws)) < dst_end"
  using assms
proof (induction ws arbitrary: m pre)
  case Nil
  then show ?case by (simp split: if_splits)
next
  case (Cons w ws)
  from Cons.prems(2) have w: "0 \<le> w" "w \<le> 65535" by auto
  have l: "length pre < dst_end"
  proof (rule ccontr)
    assume "\<not> length pre < dst_end"
    then have "encode_loop (w # ws) dst_end (length pre) m = (- 1, m)" by simp
    with Cons.prems(3) show False by simp
  qed
  from encode_step [OF Cons.prems(1) w l, of ws] obtain m1 where
    step: "encode_loop (w # ws) dst_end (length pre) m
             = encode_loop ws dst_end (length (pre @ json_escape w)) m1"
    and h1: "holds m1 (pre @ json_escape w)" by auto
  from Cons.prems(2) have r: "\<forall>w \<in> set ws. 0 \<le> w \<and> w \<le> 65535" by simp
  from Cons.prems(3) step have "fst (encode_loop ws dst_end (length (pre @ json_escape w)) m1) = 0"
    by (simp del: encode_loop.simps)
  from Cons.IH [OF h1 r this] show ?case by simp
qed

subsection \<open>The room in the destination\<close>


lemma length_json_escape_pos: "0 < length (json_escape w)"
  by (simp add: json_escape_def split: option.splits)



lemma snprintf_within:
  assumes "\<forall>i \<ge> b. m i = None" and "p + length s < b" and "length s < n"
  shows "\<forall>i \<ge> b. snd (snprintf m p n s) i = None"
  using assms by (auto simp: snprintf_def store_bytes_apply)

lemma encode_step_within:
  assumes "\<forall>i \<ge> b. m i = None" and "0 \<le> w" and "w \<le> 65535" and "p < dst_end"
    and "p + length (json_escape w) < b"
  shows "\<exists>m1. encode_loop (w # ws) dst_end p m
            = encode_loop ws dst_end (p + length (json_escape w)) m1
          \<and> (\<forall>i \<ge> b. m1 i = None)"
proof (cases "short_escape w")
  case (Some c)
  have e: "json_escape w = [backslash, c]" using Some by (simp add: json_escape_def)
  define m1 where "m1 = snd (snprintf m p 3 [backslash, c])"
  have s: "snprintf m p 3 [backslash, c] = (2, m1)"
    by (simp add: snprintf_def m1_def)
  from snprintf_within [OF assms(1), of p "[backslash, c]" 3] assms(5) e
  have "\<forall>i \<ge> b. m1 i = None" by (simp add: m1_def)
  then show ?thesis using Some assms(4) e s
    by (intro exI [of _ m1]) (simp add: encode_loop_Cons del: encode_loop.simps)
next
  case None
  show ?thesis
  proof (cases "w < 32 \<or> w > 127")
    case True
    define s where "s = [backslash, CHR ''u''] @ hex4 (nat w)"
    have e: "json_escape w = s" using None True by (simp add: json_escape_def s_def)
    have p: "[backslash, CHR ''u''] @ printf_04x (to_unsigned w) = s"
      using assms(2,3) by (simp add: to_unsigned_bmp printf_04x_hex4 s_def)
    have ls: "length s = 6" by (simp add: s_def)
    define m1 where "m1 = snd (snprintf m p 7 s)"
    have sn: "snprintf m p 7 s = (6, m1)" by (simp add: snprintf_def ls m1_def)
    from snprintf_within [OF assms(1), of p s 7] assms(5) e ls
    have "\<forall>i \<ge> b. m1 i = None" by (simp add: m1_def)
    then show ?thesis using None True assms(4) e p ls sn
      by (intro exI [of _ m1]) (simp add: encode_loop_Cons del: encode_loop.simps)
  next
    case False
    have e: "json_escape w = [char_of w]" using None False by (simp add: json_escape_def)
    with assms(1,5) have "\<forall>i \<ge> b. (m(p \<mapsto> char_of w)) i = None" by auto
    with None False assms(4) e show ?thesis
      by (intro exI [of _ "m(p \<mapsto> char_of w)"]) (simp add: encode_loop_Cons del: encode_loop.simps)
  qed
qed

lemma encode_loop_within:
  assumes "\<forall>i \<ge> dst_end. m i = None" and "\<forall>w \<in> set ws. 0 \<le> w \<and> w \<le> 65535"
    and "p + length (concat (map json_escape ws)) < dst_end"
  shows "\<forall>i \<ge> dst_end. snd (encode_loop ws dst_end p m) i = None"
  using assms
proof (induction ws arbitrary: m p)
  case Nil
  then show ?case by auto
next
  case (Cons w ws)
  from Cons.prems have w: "0 \<le> w" "w \<le> 65535" and l: "p < dst_end"
    and f: "p + length (json_escape w) < dst_end" by auto
  from encode_step_within [OF Cons.prems(1) w l f, of ws] obtain m1 where
    step: "encode_loop (w # ws) dst_end p m
             = encode_loop ws dst_end (p + length (json_escape w)) m1"
    and h1: "\<forall>i \<ge> dst_end. m1 i = None" by auto
  from Cons.prems have "\<forall>w \<in> set ws. 0 \<le> w \<and> w \<le> 65535"
    and "p + length (json_escape w) + length (concat (map json_escape ws)) < dst_end" by auto
  from Cons.IH [OF h1 this] step show ?case by (simp del: encode_loop.simps)
qed


lemma encode_json_string_fits:
  assumes "mbstowcs src = Some ws" and "\<forall>w \<in> set ws. 0 \<le> w \<and> w \<le> 65535"
    and "length (concat (map json_escape ws)) < dst_size"
  shows "fst (encode_json_string mbstowcs src dst_size) = 0
       \<and> c_string (snd (encode_json_string mbstowcs src dst_size)) 0 dst_size
           = Some (concat (map json_escape ws))
       \<and> (\<forall>i \<ge> dst_size. snd (encode_json_string mbstowcs src dst_size) i = None)"
proof -
  have e: "holds Map.empty []" by (simp add: holds_def)
  from encode_loop_holds [OF e assms(2)] assms(3) obtain m where
    m: "encode_loop ws dst_size 0 Map.empty = (0, m)"
    and h: "holds m (concat (map json_escape ws) @ [NUL])" by auto
  have "NUL \<notin> set (concat (map json_escape ws))" by (auto simp: json_escape_no_NUL)
  from c_string_holds [OF h this assms(3)]
  have c: "c_string m 0 dst_size = Some (concat (map json_escape ws))" .
  have "\<forall>i \<ge> dst_size. (Map.empty :: buffer) i = None" by simp
  from encode_loop_within [OF this assms(2), of 0] assms(3) m
  have "\<forall>i \<ge> dst_size. m i = None" by simp
  with m c assms(1) show ?thesis by (simp add: encode_json_string_def)
qed

subsection \<open>The conversion of the examples\<close>

lemma utf8_decode_utf16:
  assumes "utf8_decode bs = Some ws" and "0 \<notin> set bs"
  shows "\<exists>cps. ws = concat (map utf16 cps) \<and> (\<forall>c \<in> set cps. scalar_value c)
           \<and> length ws \<le> length bs"
  using assms
proof (induction "length bs" arbitrary: bs ws rule: less_induct)
  case less
  show ?case
  proof (cases bs)
    case Nil
    with less.prems show ?thesis by (intro exI [of _ "[]"]) simp
  next
    case (Cons b0 bs')
  note IH = less.hyps
  note prems = less.prems [unfolded Cons]
  consider (a) "b0 < 128" | (b) "194 \<le> b0" "b0 < 224" | (c) "224 \<le> b0" "b0 < 240"
    | (d) "240 \<le> b0" "b0 < 245" | (e) "128 \<le> b0" "b0 < 194" | (f) "245 \<le> b0"
    by linarith
  then show ?thesis
  proof cases
    case a
    with prems obtain r where r: "utf8_decode bs' = Some r" and ws: "ws = int b0 # r"
      by auto
    from prems(2) have z: "0 \<notin> set bs'" and b: "0 < b0" by auto
    have "length bs' < length bs" by (simp add: Cons)
    from IH [OF this r z] obtain cps where
      c: "r = concat (map utf16 cps)" "\<forall>c \<in> set cps. scalar_value c" "length r \<le> length bs'"
      by blast
    have "scalar_value (int b0)" "utf16 (int b0) = [int b0]"
      using a b by (simp_all add: scalar_value_def utf16_def)
    with c ws Cons show ?thesis by (intro exI [of _ "int b0 # cps"]) simp
  next
    case b
    with prems(1) obtain b1 t r where bs: "bs' = b1 # t" and cb: "cont_byte b1"
      and r: "utf8_decode t = Some r"
      and ws: "ws = int ((b0 - 192) * 64 + (b1 - 128)) # r"
      by (auto split: list.splits if_splits)
    from prems(2) bs have z: "0 \<notin> set t" by auto
    have "length t < length bs" by (simp add: Cons bs)
    from IH [OF this r z] obtain cps where
      c: "r = concat (map utf16 cps)" "\<forall>c \<in> set cps. scalar_value c" "length r \<le> length t"
      by blast
    define cp where "cp = (b0 - 192) * 64 + (b1 - 128)"
    have "128 \<le> cp" "cp < 2048" using b cb unfolding cp_def cont_byte_def by arith+
    then have "scalar_value (int cp)" "utf16 (int cp) = [int cp]"
      by (simp_all add: scalar_value_def utf16_def)
    with c ws bs Cons show ?thesis by (intro exI [of _ "int cp # cps"]) (simp add: cp_def)
  next
    case c
    define cp where "cp = (b0 - 224) * 4096 + (hd bs' - 128) * 64 + (hd (tl bs') - 128)"
    from c prems(1) obtain b1 b2 t r where bs: "bs' = b1 # b2 # t"
      and cb: "cont_byte b1 \<and> cont_byte b2 \<and> 2048 \<le> cp \<and> \<not> (55296 \<le> cp \<and> cp < 57344)"
      and r: "utf8_decode t = Some r" and ws: "ws = int cp # r"
      by (auto simp: Let_def cp_def split: list.splits if_splits)
    from prems(2) bs have z: "0 \<notin> set t" by auto
    have cpe: "cp = (b0 - 224) * 4096 + (b1 - 128) * 64 + (b2 - 128)" by (simp add: cp_def bs)
    have "length t < length bs" by (simp add: Cons bs)
    from IH [OF this r z] obtain cps where
      k: "r = concat (map utf16 cps)" "\<forall>c \<in> set cps. scalar_value c" "length r \<le> length t"
      by blast
    have "cp < 65536" using c cb unfolding cpe cont_byte_def by arith
    with cb have "scalar_value (int cp)" "utf16 (int cp) = [int cp]"
      by (simp_all add: scalar_value_def utf16_def)
    with k ws bs Cons show ?thesis by (intro exI [of _ "int cp # cps"]) simp
  next
    case d
    define cp where "cp = (b0 - 240) * 262144 + (hd bs' - 128) * 4096 + (hd (tl bs') - 128) * 64
        + (hd (tl (tl bs')) - 128)"
    from d prems(1) obtain b1 b2 b3 t r where bs: "bs' = b1 # b2 # b3 # t"
      and cb: "cont_byte b1 \<and> cont_byte b2 \<and> cont_byte b3 \<and> 65536 \<le> cp \<and> cp < 1114112"
      and r: "utf8_decode t = Some r"
      and ws: "ws = int (55296 + (cp - 65536) div 1024) # int (56320 + (cp - 65536) mod 1024) # r"
      by (auto simp: Let_def cp_def split: list.splits if_splits)
    from prems(2) bs have z: "0 \<notin> set t" by auto
    have "length t < length bs" by (simp add: Cons bs)
    from IH [OF this r z]
    obtain cps where
      k: "r = concat (map utf16 cps)" "\<forall>c \<in> set cps. scalar_value c" "length r \<le> length t"
      by blast
    from cb have s: "scalar_value (int cp)" by (simp add: scalar_value_def)
    from cb have "int (cp - 65536) = int cp - 65536" by simp
    then have "utf16 (int cp)
        = [int (55296 + (cp - 65536) div 1024), int (56320 + (cp - 65536) mod 1024)]"
      using cb by (simp add: utf16_def zdiv_int zmod_int)
    with s k ws bs Cons show ?thesis by (intro exI [of _ "int cp # cps"]) simp
  next
    case e
    with prems(1) show ?thesis by simp
  next
    case f
    with prems(1) show ?thesis by simp
  qed
  qed
qed

lemma utf8_mbstowcs_utf16:
  assumes "utf8_mbstowcs src = Some ws" and "NUL \<notin> set src"
  shows "\<exists>cps. ws = concat (map utf16 cps) \<and> (\<forall>c \<in> set cps. scalar_value c)
           \<and> length ws \<le> length src"
proof -
  have "(0::nat) \<notin> set (map of_char src)"
  proof
    assume "(0::nat) \<in> set (map of_char src)"
    then obtain c where c: "c \<in> set src" "(of_char c :: nat) = 0" by auto
    then have "(of_char c :: nat) = of_char NUL" by (simp add: NUL_def)
    then have "c = NUL" by (simp only: of_char_eq_iff)
    with c(1) assms(2) show False by simp
  qed
  from utf8_decode_utf16 [OF assms(1) [unfolded utf8_mbstowcs_def] this] show ?thesis by simp
qed

lemma utf8_mbstowcs_slash:
  assumes "utf8_mbstowcs (CHR ''/'' # t) = Some ws"
  shows "\<exists>u. ws = 47 # u"
  using assms by (auto simp: utf8_mbstowcs_def)

lemma utf8_mbstowcs_units:
  assumes "utf8_mbstowcs src = Some ws" and "NUL \<notin> set src"
  shows "(\<forall>w \<in> set ws. 0 \<le> w \<and> w \<le> 65535) \<and> length ws \<le> length src
         \<and> ((\<exists>t. src = CHR ''/'' # t) \<longrightarrow> (\<exists>u. ws = 47 # u))"
proof -
  from utf8_mbstowcs_utf16 [OF assms] obtain cps where
    c: "ws = concat (map utf16 cps)" "\<forall>c \<in> set cps. scalar_value c" "length ws \<le> length src"
    by blast
  from c(1,2) utf16_units have "\<forall>w \<in> set ws. 0 \<le> w \<and> w \<le> 65535" by auto
  with c(3) assms(1) utf8_mbstowcs_slash show ?thesis by blast
qed

subsection \<open>Encoding and decoding\<close>

text \<open>
  Claim C3. Let the conversion give the string in UTF-16, the form that the 16-bit
  \<^verbatim>\<open>wchar_t\<close> of the platform holds: the wide characters are the code units of the code
  points \<open>cps\<close>, each the code point of a character other than the zero character. Control
  characters, quotes, backslashes and characters outside ASCII, also above \<open>0xFFFF\<close>, are
  all among them. Whenever \<^verbatim>\<open>encode_json_string\<close> returns \<open>0\<close>, whatever the size of the
  destination, the destination holds a C string, and decoding its escapes as a JSON string
  gives exactly the code points \<open>cps\<close>: a code point above \<open>0xFFFF\<close> was written as the two
  numeric escapes of its surrogate pair, which a JSON string reads as that code point.
  The conversion \<open>utf8_mbstowcs\<close> gives every string that it accepts in this form
  (\<open>utf8_mbstowcs_utf16\<close>).
\<close>

theorem encode_json_string_round_trip:
  assumes "mbstowcs src = Some (concat (map utf16 cps))"
    and "\<forall>c \<in> set cps. scalar_value c"
    and "fst (encode_json_string mbstowcs src dst_size) = 0"
  shows "\<exists>out. c_string (snd (encode_json_string mbstowcs src dst_size)) 0 dst_size = Some out
           \<and> json_unescape out = Some cps"
proof -
  define ws where "ws = concat (map utf16 cps)"
  have r: "\<forall>w \<in> set ws. 0 \<le> w \<and> w \<le> 65535"
    using assms(2) utf16_units by (auto simp: ws_def)
  have e: "holds Map.empty []" by (simp add: holds_def)
  from assms(1,3) have "fst (encode_loop ws dst_size (length ([] :: string)) Map.empty) = 0"
    by (simp add: encode_json_string_def ws_def)
  from encode_loop_success [OF e r this]
  have l: "length (concat (map json_escape ws)) < dst_size" by simp
  from encode_loop_holds [OF e r] l obtain m where
    m: "encode_loop ws dst_size 0 Map.empty = (0, m)"
    and h: "holds m (concat (map json_escape ws) @ [NUL])" by auto
  have "NUL \<notin> set (concat (map json_escape ws))" by (auto simp: json_escape_no_NUL)
  from c_string_holds [OF h this l] m assms(1)
  have "c_string (snd (encode_json_string mbstowcs src dst_size)) 0 dst_size
          = Some (concat (map json_escape ws))"
    by (simp add: encode_json_string_def ws_def)
  with json_unescape_escapes [OF assms(2)] show ?thesis by (simp add: ws_def)
qed

text \<open>
  The theorem at the UTF-8 string \<^verbatim>\<open>a"\n\<close> followed by U+00E9 (bytes \<open>C3 A9\<close>) and U+1F600
  (bytes \<open>F0 9F 98 80\<close>), with the destination of \<open>6 * 9 + 1\<close> bytes that
  \<^verbatim>\<open>write_json_report\<close> provides: the text written is \<^verbatim>\<open>a\"\n\u00e9\ud83d\ude00\<close>, and it
  decodes to the five code points of the string.
\<close>

theorem encode_json_string_round_trip_witness:
  "utf8_mbstowcs [CHR ''a'', CHR 0x22, CHR 0x0A, CHR 0xC3, CHR 0xA9, CHR 0xF0, CHR 0x9F, CHR 0x98, CHR 0x80]
     = Some (concat (map utf16 [97, 34, 10, 233, 128512]))
   \<and> concat (map utf16 [97, 34, 10, 233, 128512]) = [97, 34, 10, 233, 55357, 56832]
   \<and> list_all scalar_value [97, 34, 10, 233, 128512]
   \<and> fst (encode_json_string utf8_mbstowcs
            [CHR ''a'', CHR 0x22, CHR 0x0A, CHR 0xC3, CHR 0xA9, CHR 0xF0, CHR 0x9F, CHR 0x98, CHR 0x80]
            55) = 0
   \<and> c_string (snd (encode_json_string utf8_mbstowcs
            [CHR ''a'', CHR 0x22, CHR 0x0A, CHR 0xC3, CHR 0xA9, CHR 0xF0, CHR 0x9F, CHR 0x98, CHR 0x80]
            55)) 0 55
       = Some ([CHR ''a'', backslash, dquote, backslash, CHR ''n'', backslash] @ ''u00e9''
               @ [backslash] @ ''ud83d'' @ [backslash] @ ''ude00'')
   \<and> json_unescape ([CHR ''a'', backslash, dquote, backslash, CHR ''n'', backslash] @ ''u00e9''
                      @ [backslash] @ ''ud83d'' @ [backslash] @ ''ude00'')
       = Some [97, 34, 10, 233, 128512]"
proof -
  define src where
    "src = [CHR ''a'', CHR 0x22, CHR 0x0A, CHR 0xC3, CHR 0xA9, CHR 0xF0, CHR 0x9F, CHR 0x98, CHR 0x80]"
  define esc where
    "esc = [CHR ''a'', backslash, dquote, backslash, CHR ''n'', backslash] @ ''u00e9''
               @ [backslash] @ ''ud83d'' @ [backslash] @ ''ude00''"
  have u: "concat (map utf16 [97, 34, 10, 233, 128512]) = [97, 34, 10, 233, 55357, 56832]"
    by (simp add: utf16_def)
  have d: "utf8_mbstowcs src = Some (concat (map utf16 [97, 34, 10, 233, 128512]))"
    unfolding u by (simp add: src_def utf8_mbstowcs_def cont_byte_def)
  have s: "\<forall>c \<in> set [97, 34, 10, 233, 128512]. scalar_value c"
    by (simp add: scalar_value_def)
  have r: "\<forall>w \<in> set [97, 34, 10, 233, 55357, 56832 :: int]. 0 \<le> w \<and> w \<le> 65535" by simp
  have e: "concat (map json_escape [97, 34, 10, 233, 55357, 56832]) = esc"
    by (simp add: esc_def json_escape_def short_escape_def hex4_def hex_digit_def char_of_def)
  have l: "length (concat (map json_escape [97, 34, 10, 233, 55357, 56832])) < 55"
    unfolding e by (simp add: esc_def)
  from encode_json_string_fits [of utf8_mbstowcs src "[97, 34, 10, 233, 55357, 56832]" 55,
      OF d [unfolded u] r l]
  have f: "fst (encode_json_string utf8_mbstowcs src 55) = 0"
    and c: "c_string (snd (encode_json_string utf8_mbstowcs src 55)) 0 55 = Some esc"
    unfolding e by simp_all
  from encode_json_string_round_trip
         [of utf8_mbstowcs src "[97, 34, 10, 233, 128512]" 55, OF d s f] c
  have "json_unescape esc = Some [97, 34, 10, 233, 128512]" by simp
  with d u s f c show ?thesis unfolding src_def esc_def by (simp add: list_all_iff)
qed

section \<open>Properties of the string arrays and the environment update\<close>

subsection \<open>\<^verbatim>\<open>string_array_single_update\<close>\<close>

lemma takeWhile_layout: "0 \<notin> set as \<Longrightarrow> takeWhile (\<lambda>a. a \<noteq> 0) (as @ 0 # rest) = as"
  by (induction as) auto

lemma takeWhile_layout': "0 \<notin> set as \<Longrightarrow> takeWhile ((<) 0) (as @ (0::nat) # rest) = as"
  by (induction as) auto

lemma split_at_null:
  assumes "(0::nat) \<in> set slots"
  shows "\<exists>rest. slots = takeWhile (\<lambda>a. a \<noteq> 0) slots @ 0 # rest"
  using assms by (induction slots) auto

lemma string_array_iff: "string_array h p xs \<longleftrightarrow> (\<exists>as rest. layout h p as rest xs)"
proof
  assume "string_array h p xs"
  then obtain slots where s: "arrs h p = Some slots" "0 \<in> set slots"
    "distinct (takeWhile (\<lambda>a. a \<noteq> 0) slots)"
    "map (strs h) (takeWhile (\<lambda>a. a \<noteq> 0) slots) = map Some xs"
    by (auto simp: string_array_def split: option.splits)
  from split_at_null [OF s(2)] obtain rest where
    "slots = takeWhile (\<lambda>a. a \<noteq> 0) slots @ 0 # rest" by blast
  moreover have "0 \<notin> set (takeWhile (\<lambda>a. a \<noteq> 0) slots)"
    by (auto dest: set_takeWhileD)
  ultimately have "layout h p (takeWhile (\<lambda>a. a \<noteq> 0) slots) rest xs"
    using s by (simp add: layout_def)
  then show "\<exists>as rest. layout h p as rest xs" by blast
next
  assume "\<exists>as rest. layout h p as rest xs"
  then show "string_array h p xs"
    by (auto simp: layout_def string_array_def takeWhile_layout')
qed

lemma count_slots_layout: "0 \<notin> set as \<Longrightarrow> count_slots (as @ 0 # rest) = Inr (length as)"
  by (induction as) auto

lemma find_entry_layout:
  assumes "0 \<notin> set as" and "map (strs h) as = map Some xs"
  shows "find_entry h key (as @ 0 # rest) i
           = Inr (i + length (takeWhile (\<lambda>e. \<not> env_match key e) xs))"
  using assms
proof (induction as arbitrary: xs i)
  case Nil
  then show ?case by simp
next
  case (Cons a as)
  from Cons.prems(2) obtain x xs' where xs: "xs = x # xs'" and x: "strs h a = Some x"
    and rest: "map (strs h) as = map Some xs'" by (cases xs) auto
  from Cons.prems(1) have a: "a \<noteq> 0" "0 \<notin> set as" by auto
  show ?case using a x xs Cons.IH [OF a(2) rest, of "Suc i"] by simp
qed

lemma update_env_found:
  assumes "length (takeWhile (\<lambda>e. \<not> env_match key e) xs) < length xs"
  shows "update_env key value xs
           = xs[length (takeWhile (\<lambda>e. \<not> env_match key e) xs) := key @ ''='' @ value]"
  using assms by (induction xs) auto

lemma update_env_absent:
  assumes "\<not> length (takeWhile (\<lambda>e. \<not> env_match key e) xs) < length xs"
  shows "update_env key value xs = xs @ [key @ ''='' @ value]"
  using assms
proof (induction xs)
  case Nil
  then show ?case by simp
next
  case (Cons e es)
  then show ?case by (cases "env_match key e") auto
qed

lemma heap_ok_above: "heap_ok h \<Longrightarrow> brk h < a \<Longrightarrow> strs h a = None \<and> arrs h a = None"
  by (simp add: heap_ok_def)

lemma heap_ok_str_le: "heap_ok h \<Longrightarrow> strs h a = Some s \<Longrightarrow> a \<le> brk h"
  by (rule ccontr) (simp add: heap_ok_def not_le)

lemma heap_ok_arr_le: "heap_ok h \<Longrightarrow> arrs h a = Some s \<Longrightarrow> a \<le> brk h"
  by (rule ccontr) (simp add: heap_ok_def not_le)

lemma heap_ok_disjoint: "heap_ok h \<Longrightarrow> strs h a = Some s \<Longrightarrow> arrs h a = None"
  unfolding heap_ok_def by (metis option.distinct(1))

lemma layout_entries_le:
  assumes "heap_ok h" and "layout h p as rest xs" and "a \<in> set as"
  shows "a \<le> brk h" and "strs h a \<noteq> None" and "arrs h a = None" and "a \<noteq> p"
proof -
  from assms(2) have m: "map (strs h) as = map Some xs" and p: "arrs h p = Some (as @ 0 # rest)"
    by (simp_all add: layout_def)
  from assms(3) obtain i where i: "i < length as" "as ! i = a" by (auto simp: in_set_conv_nth)
  from m have "length xs = length as" by (metis length_map)
  with m i have s: "strs h a = Some (xs ! i)" by (metis nth_map)
  then show "strs h a \<noteq> None" by simp
  from s assms(1) show "a \<le> brk h" by (rule heap_ok_str_le [rotated])
  from s assms(1) show "arrs h a = None" by (rule heap_ok_disjoint [rotated])
  with p show "a \<noteq> p" by auto
qed

lemma map_strs_update:
  assumes "map f as = map Some xs" and "distinct as" and "j < length as"
    and "\<forall>a \<in> set as. a \<noteq> new" and "\<forall>a. a \<noteq> new \<and> a \<noteq> as ! j \<longrightarrow> g a = f a"
    and "g new = Some e"
  shows "map g (as[j := new]) = map Some (xs[j := e])"
proof (rule nth_equalityI)
  from assms(1) have l: "length xs = length as" by (metis length_map)
  then show "length (map g (as[j := new])) = length (map Some (xs[j := e]))" by simp
  fix i assume "i < length (map g (as[j := new]))"
  then have i: "i < length as" by simp
  show "map g (as[j := new]) ! i = map Some (xs[j := e]) ! i"
  proof (cases "i = j")
    case True
    with i l assms(6) show ?thesis by simp
  next
    case False
    with i assms(2,3) have "as ! i \<noteq> as ! j" by (simp add: nth_eq_iff_index_eq)
    moreover from i assms(4) have "as ! i \<noteq> new" by auto
    ultimately have "g (as ! i) = f (as ! i)" using assms(5) by simp
    also from assms(1) i l have "f (as ! i) = Some (xs ! i)" by (metis nth_map)
    finally show ?thesis using False i l by simp
  qed
qed

lemma single_update_found:
  assumes o: "owned b h p as rest xs"
    and j: "j = length (takeWhile (\<lambda>e. \<not> env_match key e) xs)" "j < length xs"
    and av: "0 < avail h"
  shows "\<exists>h'. string_array_single_update h p key value = Inr (p, h')
            \<and> owned b h' p (as[j := Suc (brk h)]) rest (xs[j := key @ ''='' @ value])
            \<and> unchanged_upto b h h' \<and> avail h' = avail h - 1 \<and> moves h' = moves h
            \<and> garbage h' = garbage h \<and> brk h' = Suc (brk h)"
proof -
  from o have ok: "heap_ok h" and bp: "b < p" and ba: "\<forall>a \<in> set as. b < a"
    and lay: "layout h p as rest xs" by (simp_all add: owned_def)
  from lay have arr: "arrs h p = Some (as @ 0 # rest)" and nz: "0 \<notin> set as"
    and dist: "distinct as" and m: "map (strs h) as = map Some xs" by (simp_all add: layout_def)
  from m have len: "length xs = length as" by (metis length_map)
  with j have ja: "j < length as" by simp
  define old where "old = as ! j"
  define new where "new = Suc (brk h)"
  define entry where "entry = key @ ''='' @ value"
  from ja have oldin: "old \<in> set as" by (simp add: old_def)
  from nz oldin have old0: "old \<noteq> 0" by metis
  from layout_entries_le [OF ok lay oldin] old0
  have old: "old \<le> brk h" "strs h old \<noteq> None" "arrs h old = None" "old \<noteq> p" "old \<noteq> 0"
    by simp_all
  from ok arr have pb: "p \<le> brk h" by (rule heap_ok_arr_le)
  define h' where "h' = h\<lparr>strs := ((strs h)(new \<mapsto> entry))(old := None),
                          arrs := ((arrs h)(old := None))(p \<mapsto> (as[j := new]) @ 0 # rest),
                          brk := new, avail := avail h - 1\<rparr>"
  from bp have p0: "p \<noteq> 0" by simp
  have find: "find_entry h key (as @ 0 # rest) 0 = Inr j"
    using find_entry_layout [OF nz m, of key rest 0] j(1) by simp
  have nth: "(as @ 0 # rest) ! j = old" using ja by (simp add: nth_append old_def)
  have newold: "new \<noteq> old" using old(1) by (simp add: new_def)
  have newp: "new \<noteq> p" using pb by (simp add: new_def)
  have upd: "(as @ 0 # rest)[j := new] = as[j := new] @ 0 # rest"
    using ja by (simp add: list_update_append)
  have new0: "0 < new" by (simp add: new_def)
  from old(2) obtain y where oldy: "strs h old = Some y" by auto
  have run: "string_array_single_update h p key value = Inr (p, h')"
    using p0 arr find av nth old oldy newold newp ja upd new0
    by (simp add: string_array_single_update_def strdup_def free_def store_slot_def h'_def
        new_def [symmetric] entry_def fun_upd_twist)
  have sp: "strs h p = None"
    using ok arr unfolding heap_ok_def by (metis option.distinct(1))
  have ok': "heap_ok h'"
    using ok pb sp old(1) by (auto simp: heap_ok_def h'_def new_def)
  have newnot: "\<forall>a \<in> set as. a \<noteq> new"
    using layout_entries_le(1) [OF ok lay] by (fastforce simp: new_def)
  have m': "map (strs h') (as[j := new]) = map Some (xs[j := entry])"
    by (rule map_strs_update [OF m dist ja newnot])
       (auto simp: h'_def old_def newold [unfolded old_def])
  have nz': "0 \<notin> set (as[j := new])"
    using nz by (auto simp: new_def dest!: set_update_subset_insert [THEN subsetD])
  have dist': "distinct (as[j := new])"
    by (rule distinct_list_update) (use dist newnot in auto)
  have ba': "\<forall>a \<in> set (as[j := new]). b < a"
    using ba bp pb by (auto simp: new_def dest!: set_update_subset_insert [THEN subsetD])
  have lay': "layout h' p (as[j := new]) rest (xs[j := entry])"
    using m' nz' dist' by (simp add: layout_def h'_def)
  have unch: "unchanged_upto b h h'"
    using bp pb ba oldin by (auto simp: unchanged_upto_def h'_def new_def)
  show ?thesis
    using run ok' bp ba' lay' unch
    by (auto simp: owned_def h'_def new_def entry_def)
qed

lemma final_block:
  assumes "length as = n"
  shows "(take (n + 2) (as @ 0 # rest) @ replicate (n + 2 - length (as @ 0 # rest)) g)
           [n := new, Suc n := 0] = (as @ [new]) @ 0 # []"
  using assms by (cases rest) (auto simp: list_update_append)

lemma map_strs_append:
  assumes "map f as = map Some xs" and "\<forall>a \<in> set as. g a = f a" and "g new = Some e"
  shows "map g (as @ [new]) = map Some (xs @ [e])"
proof -
  from assms(2) have "map g as = map f as" by simp
  with assms(1,3) show ?thesis by simp
qed

lemma single_update_absent:
  assumes o: "owned b h p as rest xs"
    and j: "\<not> length (takeWhile (\<lambda>e. \<not> env_match key e) xs) < length xs"
    and av: "2 \<le> avail h"
  shows "\<exists>q h'. string_array_single_update h p key value = Inr (q, h')
            \<and> owned b h' q (as @ [Suc (brk h)]) [] (xs @ [key @ ''='' @ value])
            \<and> unchanged_upto b h h' \<and> avail h' = avail h - 2 \<and> moves h' = moves h
            \<and> garbage h' = garbage h \<and> brk h < brk h'"
proof -
  from o have ok: "heap_ok h" and bp: "b < p" and ba: "\<forall>a \<in> set as. b < a"
    and lay: "layout h p as rest xs" by (simp_all add: owned_def)
  from lay have arr: "arrs h p = Some (as @ 0 # rest)" and nz: "0 \<notin> set as"
    and dist: "distinct as" and m: "map (strs h) as = map Some xs" by (simp_all add: layout_def)
  from m have len: "length xs = length as" by (metis length_map)
  define n where "n = length as"
  define new where "new = Suc (brk h)"
  define entry where "entry = key @ ''='' @ value"
  define q where "q = (if moves h then Suc new else p)"
  from ok arr have pb: "p \<le> brk h" by (rule heap_ok_arr_le)
  have sp: "strs h p = None"
    using ok arr unfolding heap_ok_def by (metis option.distinct(1))
  define h' where "h' = h\<lparr>strs := (strs h)(new \<mapsto> entry),
                          arrs := (if moves h then ((arrs h)(p := None))(q \<mapsto> (as @ [new]) @ 0 # [])
                                   else (arrs h)(q \<mapsto> (as @ [new]) @ 0 # [])),
                          brk := (if moves h then q else new), avail := avail h - 2\<rparr>"
  from bp have p0: "p \<noteq> 0" by simp
  from j len have jn: "length (takeWhile (\<lambda>e. \<not> env_match key e) xs) = n"
    using length_takeWhile_le [of "\<lambda>e. \<not> env_match key e" xs] by (simp add: n_def)
  have find: "find_entry h key (as @ 0 # rest) 0 = Inr n"
    using find_entry_layout [OF nz m, of key rest 0] jn by simp
  have nth: "(as @ 0 # rest) ! n = 0" by (simp add: n_def)
  have cnt: "count_slots (as @ 0 # rest) = Inr n"
    using count_slots_layout [OF nz] by (simp add: n_def)
  have new0: "0 < new" by (simp add: new_def)
  have newp: "new \<noteq> p" using pb by (simp add: new_def)
  have fb: "(take (n + 2) (as @ 0 # rest) @ replicate (n + 2 - length (as @ 0 # rest)) (garbage h))
              [n := new, Suc n := 0] = (as @ [new]) @ 0 # []"
    by (rule final_block) (simp add: n_def)
  have ln: "n < length (take (n + 2) (as @ 0 # rest) @ replicate (n + 2 - length (as @ 0 # rest)) (garbage h))"
    "Suc n < length (take (n + 2) (as @ 0 # rest) @ replicate (n + 2 - length (as @ 0 # rest)) (garbage h))"
    by (simp_all add: n_def)
  have run: "string_array_single_update h p key value = Inr (q, h')"
  proof (cases "moves h")
    case True
    with p0 arr find av nth cnt new0 newp fb ln show ?thesis
      by (simp add: string_array_single_update_def strdup_def store_slot_def h'_def
          string_array_length_def realloc_def Let_def q_def
          new_def [symmetric] entry_def numeral_2_eq_2)
  next
    case False
    with p0 arr find av nth cnt new0 newp fb ln show ?thesis
      by (simp add: string_array_single_update_def strdup_def store_slot_def h'_def
          string_array_length_def realloc_def Let_def q_def
          new_def [symmetric] entry_def numeral_2_eq_2)
  qed
  have sq: "strs h q = None" using ok sp by (auto simp: q_def new_def heap_ok_def)
  have ok': "heap_ok h'"
    using ok pb sp by (auto simp: heap_ok_def h'_def new_def q_def)
  have newnot: "\<forall>a \<in> set as. a \<noteq> new"
    using layout_entries_le(1) [OF ok lay] by (fastforce simp: new_def)
  have m': "map (strs h') (as @ [new]) = map Some (xs @ [entry])"
    by (rule map_strs_append [OF m]) (use newnot in \<open>auto simp: h'_def\<close>)
  have lay': "layout h' q (as @ [new]) [] (xs @ [entry])"
    using m' nz dist newnot new0 by (auto simp: layout_def h'_def)
  have bq: "b < q" using bp pb by (simp add: q_def new_def)
  have ba': "\<forall>a \<in> set (as @ [new]). b < a" using ba bp pb by (auto simp: new_def)
  have unch: "unchanged_upto b h h'"
    using bp pb by (auto simp: unchanged_upto_def h'_def new_def q_def)
  show ?thesis
    using run ok' bq ba' lay' unch
    by (auto simp: owned_def h'_def new_def entry_def q_def)
qed

lemma single_update_null:
  assumes ok: "heap_ok h" and av: "2 \<le> avail h"
  shows "\<exists>q h'. string_array_single_update h 0 key value = Inr (q, h')
            \<and> owned (brk h) h' q [Suc (brk h)] [] [key @ ''='' @ value]
            \<and> unchanged_upto (brk h) h h' \<and> avail h' = avail h - 2 \<and> moves h' = moves h
            \<and> garbage h' = garbage h \<and> brk h < brk h'"
proof -
  define new where "new = Suc (brk h)"
  define h' where "h' = h\<lparr>strs := (strs h)(new \<mapsto> key @ ''='' @ value),
                          arrs := (arrs h)(Suc new \<mapsto> [new, 0]),
                          brk := Suc new, avail := avail h - 2\<rparr>"
  have new0: "0 < new" by (simp add: new_def)
  have run: "string_array_single_update h 0 key value = Inr (Suc new, h')"
    using av new0
    by (simp add: string_array_single_update_def strdup_def store_slot_def h'_def
        string_array_length_def realloc_def malloc_array_def numeral_2_eq_2
        new_def [symmetric])
  have ok': "heap_ok h'" using ok by (auto simp: heap_ok_def h'_def new_def)
  have lay': "layout h' (Suc new) [new] [] [key @ ''='' @ value]"
    by (simp add: layout_def h'_def new_def)
  have unch: "unchanged_upto (brk h) h h'"
    by (auto simp: unchanged_upto_def h'_def new_def)
  show ?thesis using run ok' lay' unch by (auto simp: owned_def h'_def new_def)
qed

lemma takeWhile_key: "c \<notin> set key \<Longrightarrow> takeWhile (\<lambda>x. x \<noteq> c) (key @ c # r) = key"
  by (induction key) auto

lemma env_match_key_of:
  assumes "CHR ''='' \<notin> set key"
  shows "env_match key e \<longleftrightarrow> key_of e = Some key"
proof
  assume m: "env_match key e"
  then have t: "take (length key) e = key" and l: "length key < length e"
    and c: "e ! length key = CHR ''=''" by (simp_all add: env_match_def strncmp_eq_def)
  from l have "e = take (length key) e @ e ! length key # drop (Suc (length key)) e"
    by (simp add: id_take_nth_drop [symmetric])
  with t c have e: "e = key @ CHR ''='' # drop (Suc (length key)) e" by simp
  have "takeWhile (\<lambda>c. c \<noteq> CHR ''='') (key @ CHR ''='' # drop (Suc (length key)) e) = key"
    using assms by (rule takeWhile_key)
  moreover have "CHR ''='' \<in> set (key @ CHR ''='' # drop (Suc (length key)) e)" by simp
  ultimately show "key_of e = Some key" using e by (simp add: key_of_def)
next
  assume "key_of e = Some key"
  then have i: "CHR ''='' \<in> set e" and k: "takeWhile (\<lambda>c. c \<noteq> CHR ''='') e = key"
    by (auto simp: key_of_def split: if_splits)
  have "\<exists>r. e = takeWhile (\<lambda>c. c \<noteq> CHR ''='') e @ CHR ''='' # r"
    using i by (induction e) auto
  with k obtain r where "e = key @ CHR ''='' # r" by auto
  then show "env_match key e" by (simp add: env_match_def strncmp_eq_def)
qed

lemma first_match_index:
  assumes "i < length xs" and "P (xs ! i)" and "\<forall>j < i. \<not> P (xs ! j)"
  shows "length (takeWhile (\<lambda>e. \<not> P e) xs) = i"
proof -
  have "takeWhile (\<lambda>e. \<not> P e) xs = take i xs"
    by (rule takeWhile_eq_take_P_nth) (use assms in auto)
  with assms(1) show ?thesis by simp
qed

lemma no_match_index:
  assumes "\<forall>e \<in> set xs. \<not> P e"
  shows "\<not> length (takeWhile (\<lambda>e. \<not> P e) xs) < length xs"
  using assms by (simp add: takeWhile_eq_all_conv [THEN iffD2])

lemma string_array_owned:
  assumes "heap_ok h" and "p \<noteq> 0" and "string_array h p xs"
  shows "\<exists>as rest. owned 0 h p as rest xs"
proof -
  from assms(3) obtain as rest where l: "layout h p as rest xs"
    by (auto simp: string_array_iff)
  then have "0 \<notin> set as" by (simp add: layout_def)
  then have "\<forall>a \<in> set as. 0 < a" by (metis neq0_conv)
  with assms(1,2) l have "owned 0 h p as rest xs" by (simp add: owned_def)
  then show ?thesis by blast
qed

lemma owned_string_array: "owned b h p as rest xs \<Longrightarrow> string_array h p xs"
  by (auto simp: owned_def string_array_iff)

lemma heap_ok_example: "heap_ok example_heap"
  by (auto simp: heap_ok_def example_heap_def)

lemma env_vector_example: "env_vector example_heap 3 [''A=1'', ''LD_PRELOAD=old'']"
  by (simp add: env_vector_def string_array_def example_heap_def)

lemmas eval_heap =
  string_array_single_update_def strdup_def free_def store_slot_def string_array_length_def
  realloc_def malloc_array_def env_match_def strncmp_eq_def string_array_def
  string_array_copy_def string_array_partial_update_def string_array_release_def
  env_vector_def key_of_def

text \<open>
  Claim C4. Let \<open>envs\<close> be a vector of \<open>n\<close> entries \<open>xs\<close> in a heap that is in order,
  let \<open>key\<close> contain no \<^verbatim>\<open>=\<close>, and let two allocations succeed. Let the vector have no
  duplicate keys, as every environment vector of the specification. If the entry at index
  \<open>i\<close> has the key component \<open>key\<close>, then \<^verbatim>\<open>string_array_single_update\<close> returns the same
  pointer, and the vector still has \<open>n\<close> entries: \<^verbatim>\<open>key=value\<close> at index \<open>i\<close> and every
  other entry unchanged. If no entry has the key component \<open>key\<close> (an entry whose key only
  starts with \<open>key\<close> has another key component), it returns a vector of \<open>n + 1\<close> entries,
  the first \<open>n\<close> as before and in order and the last one \<^verbatim>\<open>key=value\<close>, in a block of
  exactly \<open>n + 1\<close> non-null slots followed by the null slot. The third part is the first
  one for any vector: without the condition on the keys, the entry replaced is the one at
  the first index whose entry has the key component \<open>key\<close>.
\<close>

theorem string_array_single_update_spec:
  assumes "heap_ok h" and "env_vector h envs xs" and "CHR ''='' \<notin> set key"
    and "2 \<le> avail h"
  shows "(distinct (map key_of xs) \<longrightarrow>
            (\<forall>i. i < length xs \<and> key_of (xs ! i) = Some key \<longrightarrow>
               (\<exists>h'. string_array_single_update h envs key value = Inr (envs, h')
                    \<and> string_array h' envs (xs[i := key @ ''='' @ value]))))
       \<and> ((\<forall>e \<in> set xs. key_of e \<noteq> Some key) \<longrightarrow>
            (\<exists>envs' h' as. string_array_single_update h envs key value = Inr (envs', h')
                 \<and> string_array h' envs' (xs @ [key @ ''='' @ value])
                 \<and> arrs h' envs' = Some (as @ [0]) \<and> length as = length xs + 1
                 \<and> 0 \<notin> set as))
       \<and> (\<forall>i. i < length xs \<and> key_of (xs ! i) = Some key
              \<and> (\<forall>j < i. key_of (xs ! j) \<noteq> Some key) \<longrightarrow>
            (\<exists>h'. string_array_single_update h envs key value = Inr (envs, h')
                 \<and> string_array h' envs (xs[i := key @ ''='' @ value])))"
proof -
  have first: "\<exists>h'. string_array_single_update h envs key value = Inr (envs, h')
             \<and> string_array h' envs (xs[i := key @ ''='' @ value])"
    if a: "i < length xs \<and> key_of (xs ! i) = Some key
              \<and> (\<forall>j < i. key_of (xs ! j) \<noteq> Some key)" for i
  proof -
    from a have "xs \<noteq> []" by auto
    with assms(2) have p0: "envs \<noteq> 0" and sa: "string_array h envs xs"
      by (auto simp: env_vector_def split: if_splits)
    from string_array_owned [OF assms(1) p0 sa] obtain as rest where
      o: "owned 0 h envs as rest xs" by blast
    from a have "length (takeWhile (\<lambda>e. \<not> env_match key e) xs) = i"
      by (intro first_match_index) (simp_all add: env_match_key_of [OF assms(3)])
    then have j: "i = length (takeWhile (\<lambda>e. \<not> env_match key e) xs)" by simp
    from assms(4) have av: "0 < avail h" by simp
    from a have il: "i < length xs" by simp
    from single_update_found [OF o j il av, of "value"]
    show ?thesis by (auto dest: owned_string_array)
  qed
  have unique: "\<exists>h'. string_array_single_update h envs key value = Inr (envs, h')
             \<and> string_array h' envs (xs[i := key @ ''='' @ value])"
    if d: "distinct (map key_of xs)" and i: "i < length xs \<and> key_of (xs ! i) = Some key" for i
  proof -
    have "\<forall>j < i. key_of (xs ! j) \<noteq> Some key"
    proof (intro allI impI notI)
      fix j assume j: "j < i" and k: "key_of (xs ! j) = Some key"
      with i have "map key_of xs ! j = map key_of xs ! i"
        and "j < length (map key_of xs)" and "i < length (map key_of xs)" by simp_all
      with d have "j = i" using nth_eq_iff_index_eq [of "map key_of xs" j i] by blast
      with j show False by simp
    qed
    with i first show ?thesis by blast
  qed
  have absent: "\<exists>envs' h' as. string_array_single_update h envs key value = Inr (envs', h')
          \<and> string_array h' envs' (xs @ [key @ ''='' @ value])
          \<and> arrs h' envs' = Some (as @ [0]) \<and> length as = length xs + 1 \<and> 0 \<notin> set as"
    if a: "\<forall>e \<in> set xs. key_of e \<noteq> Some key"
  proof -
    from a have nm: "\<not> length (takeWhile (\<lambda>e. \<not> env_match key e) xs) < length xs"
      by (intro no_match_index) (simp add: env_match_key_of [OF assms(3)])
    show ?thesis
    proof (cases "envs = 0")
      case True
      with assms(2) have xs: "xs = []" by (simp add: env_vector_def)
      from single_update_null [OF assms(1,4), of key "value"] obtain q h' where
        r: "string_array_single_update h 0 key value = Inr (q, h')"
        and o: "owned (brk h) h' q [Suc (brk h)] [] [key @ ''='' @ value]" by blast
      from o have "arrs h' q = Some ([Suc (brk h)] @ [0])" by (simp add: owned_def layout_def)
      with r o True xs show ?thesis
        by (intro exI [of _ q] exI [of _ h'] exI [of _ "[Suc (brk h)]"])
           (auto dest: owned_string_array)
    next
      case False
      with assms(2) have sa: "string_array h envs xs" by (simp add: env_vector_def)
      from string_array_owned [OF assms(1) False sa] obtain as rest where
        o: "owned 0 h envs as rest xs" by blast
      from o have len: "length as = length xs"
        by (auto simp: owned_def layout_def dest: arg_cong [where f = length])
      from single_update_absent [OF o nm assms(4), of "value"] obtain q h' where
        r: "string_array_single_update h envs key value = Inr (q, h')"
        and o': "owned 0 h' q (as @ [Suc (brk h)]) [] (xs @ [key @ ''='' @ value])" by blast
      from o' have "arrs h' q = Some ((as @ [Suc (brk h)]) @ [0])"
        and "0 \<notin> set (as @ [Suc (brk h)])" by (simp_all add: owned_def layout_def)
      with r o' len show ?thesis
        by (intro exI [of _ q] exI [of _ h'] exI [of _ "as @ [Suc (brk h)]"])
           (auto dest: owned_string_array)
    qed
  qed
  from first unique absent show ?thesis by blast
qed

text \<open>
  The theorem on the example heap, whose vector has the two keys \<^verbatim>\<open>A\<close> and \<^verbatim>\<open>LD_PRELOAD\<close>:
  \<^verbatim>\<open>LD_PRELOAD\<close> is found at index \<open>1\<close> and replaced in place, \<^verbatim>\<open>B\<close> is absent and appended.
\<close>

theorem string_array_single_update_spec_witness:
  "heap_ok example_heap
   \<and> env_vector example_heap 3 [''A=1'', ''LD_PRELOAD=old'']
   \<and> distinct (map key_of [''A=1'', ''LD_PRELOAD=old''])
   \<and> key_of ([''A=1'', ''LD_PRELOAD=old''] ! 1) = Some ''LD_PRELOAD''
   \<and> (\<exists>h'. string_array_single_update example_heap 3 ''LD_PRELOAD'' ''libear.so'' = Inr (3, h')
          \<and> string_array h' 3 [''A=1'', ''LD_PRELOAD=libear.so''])
   \<and> (\<exists>envs' h' as. string_array_single_update example_heap 3 ''B'' ''2'' = Inr (envs', h')
          \<and> string_array h' envs' [''A=1'', ''LD_PRELOAD=old'', ''B=2'']
          \<and> arrs h' envs' = Some (as @ [0]) \<and> length as = 3 \<and> 0 \<notin> set as)"
proof -
  have av: "2 \<le> avail example_heap" by (simp add: example_heap_def)
  have k1: "CHR ''='' \<notin> set ''LD_PRELOAD''" and k2: "CHR ''='' \<notin> set ''B''" by simp_all
  have d: "distinct (map key_of [''A=1'', ''LD_PRELOAD=old''])"
    by (simp add: key_of_def)
  have k: "key_of ([''A=1'', ''LD_PRELOAD=old''] ! 1) = Some ''LD_PRELOAD''"
    by (simp add: key_of_def)
  then have f: "1 < length [''A=1'', ''LD_PRELOAD=old'']
      \<and> key_of ([''A=1'', ''LD_PRELOAD=old''] ! 1) = Some ''LD_PRELOAD''"
    by simp
  have a: "\<forall>e \<in> set [''A=1'', ''LD_PRELOAD=old'']. key_of e \<noteq> Some ''B''"
    by (simp add: key_of_def)
  from string_array_single_update_spec
         [OF heap_ok_example env_vector_example k1 av, of "''libear.so''",
          THEN conjunct1, rule_format, OF d f]
  have 1: "\<exists>h'. string_array_single_update example_heap 3 ''LD_PRELOAD'' ''libear.so'' = Inr (3, h')
          \<and> string_array h' 3 [''A=1'', ''LD_PRELOAD=libear.so'']"
    by simp
  from string_array_single_update_spec
         [OF heap_ok_example env_vector_example k2 av, of "''2''",
          THEN conjunct2, THEN conjunct1, THEN mp, OF a]
  have 2: "\<exists>envs' h' as. string_array_single_update example_heap 3 ''B'' ''2'' = Inr (envs', h')
          \<and> string_array h' envs' [''A=1'', ''LD_PRELOAD=old'', ''B=2'']
          \<and> arrs h' envs' = Some (as @ [0]) \<and> length as = 3 \<and> 0 \<notin> set as"
    by (simp add: numeral_3_eq_3)
  from heap_ok_example env_vector_example d k 1 2 show ?thesis by blast
qed

subsection \<open>\<^verbatim>\<open>string_array_copy\<close> and \<^verbatim>\<open>string_array_partial_update\<close>\<close>

lemma unchanged_upto_refl: "unchanged_upto b h h"
  by (simp add: unchanged_upto_def)

lemma unchanged_upto_trans:
  "unchanged_upto b h h1 \<Longrightarrow> unchanged_upto b h1 h2 \<Longrightarrow> unchanged_upto b h h2"
  by (simp add: unchanged_upto_def)

lemma copy_loop_layout:
  assumes "heap_ok h" and "0 \<notin> set as" and "map (strs h) as = map Some xs"
    and "arrs h result = Some blk" and "length blk = k + length as + 1"
    and "length as \<le> avail h"
  shows "\<exists>h' as'. copy_loop h result k (as @ 0 # rest) = Inr h'
           \<and> arrs h' result = Some (take k blk @ as' @ [0])
           \<and> length as' = length as \<and> distinct as' \<and> 0 \<notin> set as'
           \<and> (\<forall>a \<in> set as'. brk h < a)
           \<and> map (strs h') as' = map Some xs
           \<and> (\<forall>a \<le> brk h. strs h' a = strs h a)
           \<and> (\<forall>a. a \<noteq> result \<longrightarrow> arrs h' a = arrs h a)
           \<and> heap_ok h' \<and> brk h \<le> brk h' \<and> avail h' = avail h - length as
           \<and> moves h' = moves h \<and> garbage h' = garbage h"
  using assms
proof (induction as arbitrary: xs k h blk)
  case Nil
  then show ?case
    by (auto simp: store_slot_def heap_ok_def intro!: exI [of _ "[]"]
        simp: upd_conv_take_nth_drop)
next
  case (Cons a as)
  from Cons.prems(3) obtain x xs' where xs: "xs = x # xs'" and x: "strs h a = Some x"
    and m: "map (strs h) as = map Some xs'" by (cases xs) auto
  from Cons.prems(2) have a0: "a \<noteq> 0" and nz: "0 \<notin> set as" by auto
  define c where "c = Suc (brk h)"
  define h2 where "h2 = h\<lparr>strs := (strs h)(c \<mapsto> x), brk := c, avail := avail h - 1,
                          arrs := (arrs h)(result \<mapsto> blk[k := c])\<rparr>"
  from Cons.prems(1,4) have rb: "result \<le> brk h" by (rule heap_ok_arr_le)
  have sr: "strs h result = None"
    using Cons.prems(1,4) unfolding heap_ok_def by (metis option.distinct(1))
  from Cons.prems(5) have kl: "k < length blk" by simp
  from Cons.prems(6) have av: "0 < avail h" by simp
  have c0: "0 < c" by (simp add: c_def)
  have step: "copy_loop h result k ((a # as) @ 0 # rest) = copy_loop h2 result (Suc k) (as @ 0 # rest)"
    using a0 x av kl Cons.prems(4) rb c0
    by (simp add: strdup_def store_slot_def h2_def c_def [symmetric])
  have ok2: "heap_ok h2"
    using Cons.prems(1) rb sr by (auto simp: heap_ok_def h2_def c_def)
  have asle: "\<forall>b \<in> set as. b \<noteq> c"
  proof
    fix b assume "b \<in> set as"
    then obtain i where "i < length as" "as ! i = b" by (auto simp: in_set_conv_nth)
    with m have "strs h b = Some (xs' ! i)"
      by (metis length_map nth_map)
    with Cons.prems(1) have "b \<le> brk h" by (rule heap_ok_str_le)
    then show "b \<noteq> c" by (simp add: c_def)
  qed
  then have m2: "map (strs h2) as = map Some xs'"
    using m by (auto simp: h2_def)
  have a2: "arrs h2 result = Some (blk[k := c])" by (simp add: h2_def)
  have l2: "length (blk[k := c]) = Suc k + length as + 1" using Cons.prems(5) by simp
  have av2: "length as \<le> avail h2" using Cons.prems(6) by (simp add: h2_def)
  from Cons.IH [OF ok2 nz m2 a2 l2 av2] obtain h' as' where
    r: "copy_loop h2 result (Suc k) (as @ 0 # rest) = Inr h'"
    and ar: "arrs h' result = Some (take (Suc k) (blk[k := c]) @ as' @ [0])"
    and p: "length as' = length as" "distinct as'" "0 \<notin> set as'" "\<forall>a \<in> set as'. brk h2 < a"
      "map (strs h') as' = map Some xs'" "\<forall>a \<le> brk h2. strs h' a = strs h2 a"
      "\<forall>a. a \<noteq> result \<longrightarrow> arrs h' a = arrs h2 a" "heap_ok h'" "brk h2 \<le> brk h'"
      "avail h' = avail h2 - length as" "moves h' = moves h2" "garbage h' = garbage h2"
    by blast
  have tk: "take (Suc k) (blk[k := c]) = take k blk @ [c]"
    using kl by (simp add: take_Suc_conv_app_nth)
  have b2: "brk h2 = c" by (simp add: h2_def)
  have sc: "strs h' c = Some x" using p(6) b2 by (simp add: h2_def)
  have "copy_loop h result k ((a # as) @ 0 # rest) = Inr h'" using step r by simp
  moreover have "arrs h' result = Some (take k blk @ (c # as') @ [0])" using ar tk by simp
  moreover have "length (c # as') = length (a # as)" using p(1) by simp
  moreover have "distinct (c # as')" using p(2,4) b2 by auto
  moreover have "0 \<notin> set (c # as')" using p(3) c0 by auto
  moreover have "\<forall>a \<in> set (c # as'). brk h < a" using p(4) b2 by (auto simp: c_def)
  moreover have "map (strs h') (c # as') = map Some xs" using p(5) sc xs by simp
  moreover have "\<forall>a \<le> brk h. strs h' a = strs h a" using p(6) b2 by (auto simp: h2_def c_def)
  moreover have "\<forall>a. a \<noteq> result \<longrightarrow> arrs h' a = arrs h a" using p(7) by (simp add: h2_def)
  moreover have "brk h \<le> brk h'" using p(9) b2 by (simp add: c_def)
  moreover have "avail h' = avail h - length (a # as)" using p(10) by (simp add: h2_def)
  moreover have "moves h' = moves h" "garbage h' = garbage h" using p(11,12) by (simp_all add: h2_def)
  ultimately show ?case using p(8) by blast
qed

lemma string_array_copy_owned:
  assumes ok: "heap_ok h" and v: "env_vector h inp xs" and av: "length xs + 1 \<le> avail h"
  shows "\<exists>h' as. string_array_copy h inp = Inr (Suc (brk h), h')
           \<and> owned (brk h) h' (Suc (brk h)) as [] xs
           \<and> unchanged_upto (brk h) h h' \<and> avail h' = avail h - (length xs + 1)
           \<and> moves h' = moves h \<and> garbage h' = garbage h"
proof (cases "inp = 0")
  case True
  with v have xs: "xs = []" by (simp add: env_vector_def)
  define h' where "h' = h\<lparr>arrs := (arrs h)(Suc (brk h) \<mapsto> [0]), brk := Suc (brk h),
                          avail := avail h - 1\<rparr>"
  have "string_array_copy h inp = Inr (Suc (brk h), h')"
    using True av
    by (simp add: string_array_copy_def string_array_length_def malloc_array_def
        store_slot_def h'_def)
  moreover have "heap_ok h'" using ok by (auto simp: heap_ok_def h'_def)
  moreover have "layout h' (Suc (brk h)) [] [] []" by (simp add: layout_def h'_def)
  moreover have "unchanged_upto (brk h) h h'" by (auto simp: unchanged_upto_def h'_def)
  ultimately show ?thesis using xs
    by (intro exI [of _ h'] exI [of _ "[]"]) (auto simp: owned_def h'_def)
next
  case False
  with v have "string_array h inp xs" by (simp add: env_vector_def)
  then obtain as rest where lay: "layout h inp as rest xs" by (auto simp: string_array_iff)
  then have arr: "arrs h inp = Some (as @ 0 # rest)" and nz: "0 \<notin> set as"
    and m: "map (strs h) as = map Some xs" by (simp_all add: layout_def)
  from m have len: "length as = length xs" by (metis length_map)
  define q where "q = Suc (brk h)"
  define blk where "blk = replicate (length as + 1) (garbage h)"
  define h1 where "h1 = h\<lparr>arrs := (arrs h)(q \<mapsto> blk), brk := q, avail := avail h - 1\<rparr>"
  from ok arr have ib: "inp \<le> brk h" by (rule heap_ok_arr_le)
  then have iq: "inp \<noteq> q" by (simp add: q_def)
  have ok1: "heap_ok h1" using ok by (auto simp: heap_ok_def h1_def q_def)
  have m1: "map (strs h1) as = map Some xs" using m by (simp add: h1_def)
  have a1: "arrs h1 q = Some blk" by (simp add: h1_def)
  have l1: "length blk = 0 + length as + 1" by (simp add: blk_def)
  have av1: "length as \<le> avail h1" using av len by (simp add: h1_def)
  from copy_loop_layout [OF ok1 nz m1 a1 l1 av1, of rest] obtain h' as' where
    r: "copy_loop h1 q 0 (as @ 0 # rest) = Inr h'"
    and ar: "arrs h' q = Some (take 0 blk @ as' @ [0])"
    and p: "length as' = length as" "distinct as'" "0 \<notin> set as'" "\<forall>a \<in> set as'. brk h1 < a"
      "map (strs h') as' = map Some xs" "\<forall>a \<le> brk h1. strs h' a = strs h1 a"
      "\<forall>a. a \<noteq> q \<longrightarrow> arrs h' a = arrs h1 a" "heap_ok h'" "brk h1 \<le> brk h'"
      "avail h' = avail h1 - length as" "moves h' = moves h1" "garbage h' = garbage h1"
    by blast
  have q0: "0 < q" by (simp add: q_def)
  have run: "string_array_copy h inp = Inr (q, h')"
    using False arr av r iq q0 count_slots_layout [OF nz, of rest]
    by (simp add: string_array_copy_def string_array_length_def malloc_array_def
        h1_def blk_def q_def [symmetric])
  have b1: "brk h1 = q" by (simp add: h1_def)
  have lay': "layout h' q as' [] xs" using ar p(2,3,5) by (simp add: layout_def)
  have own: "owned (brk h) h' q as' [] xs"
    using p(8) lay' p(4) b1 by (auto simp: owned_def q_def)
  have unch: "unchanged_upto (brk h) h h'"
    using p(6,7) b1 by (auto simp: unchanged_upto_def h1_def q_def)
  have "avail h' = avail h - (length xs + 1)" using p(10) len by (simp add: h1_def)
  moreover have "moves h' = moves h" "garbage h' = garbage h" using p(11,12) by (simp_all add: h1_def)
  ultimately show ?thesis using run own unch by (auto simp: q_def)
qed

lemma single_update_owned:
  assumes "owned b h p as rest xs" and "2 \<le> avail h"
  shows "\<exists>q h' as' rest'. string_array_single_update h p key value = Inr (q, h')
           \<and> owned b h' q as' rest' (update_env key value xs)
           \<and> unchanged_upto b h h' \<and> avail h - 2 \<le> avail h'
           \<and> moves h' = moves h \<and> garbage h' = garbage h"
proof (cases "length (takeWhile (\<lambda>e. \<not> env_match key e) xs) < length xs")
  case True
  from assms(2) have "0 < avail h" by simp
  from single_update_found [OF assms(1) refl True this, of "value"] update_env_found [OF True, of "value"]
  show ?thesis by (metis diff_le_mono2 one_le_numeral)
next
  case False
  from single_update_absent [OF assms(1) False assms(2), of "value"] update_env_absent [OF False, of "value"]
  show ?thesis by (metis order_refl)
qed

lemma apply_updates_Nil: "apply_updates keys [] xs = xs"
  by (cases keys) simp_all

lemma update_loop_avail:
  assumes "owned b h p as rest xs"
    and "\<forall>v \<in> set env. v \<noteq> 0 \<longrightarrow> v \<le> b \<and> strs h v \<noteq> None"
    and "2 * length env \<le> avail h"
  shows "\<exists>q h' as' rest'. update_loop h p keys env = Inr (q, h')
           \<and> owned b h' q as' rest' (apply_updates keys (captured h env) xs)
           \<and> unchanged_upto b h h' \<and> avail h - 2 * length env \<le> avail h'"
  using assms
proof (induction h p keys env arbitrary: as rest xs rule: update_loop.induct)
  case (1 h result key keys v vs)
  show ?case
  proof (cases "v = 0")
    case True
    with "1.prems"(1) show ?thesis
      by (auto simp: captured_def unchanged_upto_refl)
  next
    case False
    with "1.prems"(2) obtain val where val: "strs h v = Some val" and vb: "v \<le> b" by auto
    from "1.prems"(3) have av: "2 \<le> avail h" by simp
    from single_update_owned [OF "1.prems"(1) av, of key val] obtain q h1 as1 rest1 where
      r: "string_array_single_update h result key val = Inr (q, h1)"
      and o1: "owned b h1 q as1 rest1 (update_env key val xs)"
      and u1: "unchanged_upto b h h1" and a1: "avail h - 2 \<le> avail h1" by blast
    from "1.prems"(2) u1 have c1: "\<forall>v \<in> set vs. v \<noteq> 0 \<longrightarrow> v \<le> b \<and> strs h1 v \<noteq> None"
      by (auto simp: unchanged_upto_def)
    from "1.prems"(3) a1 have av1: "2 * length vs \<le> avail h1" by simp
    from "1.IH" [OF False val r refl o1 c1 av1] obtain q' h' as' rest' where
      r': "update_loop h1 q keys vs = Inr (q', h')"
      and o': "owned b h' q' as' rest' (apply_updates keys (captured h1 vs) (update_env key val xs))"
      and u': "unchanged_upto b h1 h'" and a': "avail h1 - 2 * length vs \<le> avail h'" by blast
    from "1.prems"(2) u1 have "captured h1 vs = captured h vs"
      by (auto simp: captured_def unchanged_upto_def)
    with o' have o'': "owned b h' q' as' rest'
        (apply_updates keys (captured h vs) (update_env key val xs))" by simp
    have "captured h (v # vs) = Some val # captured h vs"
      using False val by (simp add: captured_def)
    moreover from a1 a' have "avail h - 2 * length (v # vs) \<le> avail h'" by simp
    ultimately show ?thesis
      using False val r r' o'' unchanged_upto_trans [OF u1 u'] by auto
  qed
next
  case "2_1"
  then show ?case by (auto simp: unchanged_upto_refl)
next
  case "2_2"
  then show ?case by (auto simp: unchanged_upto_refl captured_def apply_updates_Nil)
qed

lemma partial_update_owned:
  assumes ok: "heap_ok h" and v: "env_vector h envp xs"
    and caps: "\<forall>v \<in> set env. v \<noteq> 0 \<longrightarrow> strs h v \<noteq> None"
    and av: "length xs + 1 + 2 * length env \<le> avail h"
  shows "\<exists>q h' as rest. string_array_partial_update names h envp env = Inr (q, h')
           \<and> owned (brk h) h' q as rest (apply_updates names (captured h env) xs)
           \<and> unchanged_upto (brk h) h h'
           \<and> avail h - (length xs + 1 + 2 * length env) \<le> avail h'"
proof -
  from av have av0: "length xs + 1 \<le> avail h" by simp
  from string_array_copy_owned [OF ok v av0] obtain h1 as1 where
    c: "string_array_copy h envp = Inr (Suc (brk h), h1)"
    and o1: "owned (brk h) h1 (Suc (brk h)) as1 [] xs"
    and u1: "unchanged_upto (brk h) h h1" and a1: "avail h1 = avail h - (length xs + 1)"
    by blast
  have cb: "\<forall>v \<in> set env. v \<noteq> 0 \<longrightarrow> v \<le> brk h \<and> strs h v \<noteq> None"
    using caps ok by (auto dest: heap_ok_str_le)
  with u1 have c1: "\<forall>v \<in> set env. v \<noteq> 0 \<longrightarrow> v \<le> brk h \<and> strs h1 v \<noteq> None"
    by (auto simp: unchanged_upto_def)
  from av a1 have av1: "2 * length env \<le> avail h1" by simp
  from update_loop_avail [OF o1 c1 av1, of names] obtain q h' as rest where
    r: "update_loop h1 (Suc (brk h)) names env = Inr (q, h')"
    and o': "owned (brk h) h' q as rest (apply_updates names (captured h1 env) xs)"
    and u': "unchanged_upto (brk h) h1 h'" and a': "avail h1 - 2 * length env \<le> avail h'"
    by blast
  from cb u1 have "captured h1 env = captured h env"
    by (auto simp: captured_def unchanged_upto_def)
  with o' have "owned (brk h) h' q as rest (apply_updates names (captured h env) xs)" by simp
  moreover from c r have "string_array_partial_update names h envp env = Inr (q, h')"
    by (simp add: string_array_partial_update_def)
  moreover from a1 a' have "avail h - (length xs + 1 + 2 * length env) \<le> avail h'" by simp
  ultimately show ?thesis using unchanged_upto_trans [OF u1 u'] by blast
qed

lemma entry_addrs_layout: "layout h p as rest xs \<Longrightarrow> entry_addrs h p = as"
  by (simp add: layout_def entry_addrs_def takeWhile_layout')

lemma string_array_unchanged:
  assumes "heap_ok h" and "string_array h p xs" and "unchanged_upto (brk h) h h'"
  shows "string_array h' p xs"
proof -
  from assms(2) obtain as rest where l: "layout h p as rest xs" by (auto simp: string_array_iff)
  then have arr: "arrs h p = Some (as @ 0 # rest)" by (simp add: layout_def)
  with assms(1) have "p \<le> brk h" by (rule heap_ok_arr_le)
  with assms(3) arr have a': "arrs h' p = Some (as @ 0 # rest)" by (simp add: unchanged_upto_def)
  have "\<forall>a \<in> set as. strs h' a = strs h a"
    using layout_entries_le(1) [OF assms(1) l] assms(3) by (auto simp: unchanged_upto_def)
  then have "map (strs h') as = map (strs h) as" by simp
  with l a' have "layout h' p as rest xs" by (simp add: layout_def)
  then show ?thesis by (auto simp: string_array_iff)
qed

lemma env_vector_unchanged:
  "heap_ok h \<Longrightarrow> env_vector h p xs \<Longrightarrow> unchanged_upto (brk h) h h' \<Longrightarrow> env_vector h' p xs"
  by (auto simp: env_vector_def intro: string_array_unchanged)

lemmas eval_env = eval_heap captured_def env_names_def ENV_OUTPUT_def example_heap_def

text \<open>
  Claim C5, as amended. Let \<open>envp\<close> be a vector \<open>xs\<close> (or the null pointer) in a heap that is
  in order, let every non-null slot of the captured environment point to a string, and let
  the allocations succeed. Then \<^verbatim>\<open>string_array_partial_update\<close> returns a vector that holds
  \<open>xs\<close> after one update for each captured pair, in the order of the captured list, up to
  the first slot that is absent; the pairs behind an absent slot are not applied. The
  result is fresh: its block and all its strings lie above every address of the heap it
  started from, everything in that heap is unchanged, and \<open>envp\<close> still is the vector \<open>xs\<close>.
\<close>

theorem string_array_partial_update_spec:
  assumes "heap_ok h" and "env_vector h envp xs"
    and "\<forall>v \<in> set env. v \<noteq> 0 \<longrightarrow> strs h v \<noteq> None"
    and "length xs + 1 + 2 * length env \<le> avail h"
  shows "\<exists>q h'. string_array_partial_update names h envp env = Inr (q, h')
           \<and> string_array h' q (apply_updates names (captured h env) xs)
           \<and> brk h < q \<and> (\<forall>a \<in> set (entry_addrs h' q). brk h < a)
           \<and> unchanged_upto (brk h) h h' \<and> env_vector h' envp xs"
proof -
  from partial_update_owned [OF assms, of names] obtain q h' as rest where
    r: "string_array_partial_update names h envp env = Inr (q, h')"
    and o: "owned (brk h) h' q as rest (apply_updates names (captured h env) xs)"
    and u: "unchanged_upto (brk h) h h'" by blast
  from o have "entry_addrs h' q = as" by (auto simp: owned_def intro: entry_addrs_layout)
  with o have "\<forall>a \<in> set (entry_addrs h' q). brk h < a" and "brk h < q"
    by (simp_all add: owned_def)
  with r o u env_vector_unchanged [OF assms(1,2) u] show ?thesis
    by (auto dest: owned_string_array)
qed

text \<open>
  The theorem on the example heap, with both values captured: \<^verbatim>\<open>LD_PRELOAD\<close> is replaced
  in place and the output directory is appended; the input vector at \<open>3\<close> is as before.
\<close>

theorem string_array_partial_update_spec_witness:
  "heap_ok example_heap
   \<and> env_vector example_heap 3 [''A=1'', ''LD_PRELOAD=old'']
   \<and> (\<exists>q h'. string_array_partial_update env_names example_heap 3 [4, 5] = Inr (q, h')
          \<and> string_array h' q
               [''A=1'', ''LD_PRELOAD=libear.so'', ''INTERCEPT_BUILD_TARGET_DIR=/out'']
          \<and> 5 < q \<and> (\<forall>a \<in> set (entry_addrs h' q). 5 < a)
          \<and> unchanged_upto 5 example_heap h'
          \<and> env_vector h' 3 [''A=1'', ''LD_PRELOAD=old''])"
proof -
  have c: "\<forall>v \<in> set [4, 5]. v \<noteq> 0 \<longrightarrow> strs example_heap v \<noteq> None"
    by (simp add: example_heap_def)
  have av: "length [''A=1'', ''LD_PRELOAD=old''] + 1 + 2 * length [4, 5 :: nat] \<le> avail example_heap"
    by (simp add: example_heap_def)
  have a: "apply_updates env_names (captured example_heap [4, 5]) [''A=1'', ''LD_PRELOAD=old'']
      = [''A=1'', ''LD_PRELOAD=libear.so'', ''INTERCEPT_BUILD_TARGET_DIR=/out'']"
    by (simp add: eval_env)
  have b: "brk example_heap = 5" by (simp add: example_heap_def)
  from string_array_partial_update_spec [OF heap_ok_example env_vector_example c av, of env_names]
    heap_ok_example env_vector_example
  show ?thesis unfolding a b by simp
qed

text \<open>
  Claim C5 as stated applies the update for each captured pair, also when some slots are
  absent. With the first slot absent and \<^verbatim>\<open>LD_PRELOAD\<close> captured, the loop ends at once:
  the result is a plain copy, and \<^verbatim>\<open>LD_PRELOAD=old\<close> is not replaced.
\<close>

theorem string_array_partial_update_gap_counterexample:
  "captured example_heap [0, 5] = [None, Some ''libear.so'']
   \<and> (case string_array_partial_update env_names example_heap 3 [0, 5] of
         Inl e \<Rightarrow> False
       | Inr (q, h) \<Rightarrow> string_array h q [''A=1'', ''LD_PRELOAD=old''])
   \<and> apply_all_updates env_names [None, Some ''libear.so''] [''A=1'', ''LD_PRELOAD=old'']
       = [''A=1'', ''LD_PRELOAD=libear.so'']"
  by (simp add: eval_env)

subsection \<open>Applying the captured environment twice\<close>

lemma env_match_own: "env_match key (key @ ''='' @ value)"
  by (simp add: env_match_def strncmp_eq_def nth_append)

lemma env_match_own': "env_match key (key @ CHR ''='' # value)"
  using env_match_own [of key "value"] by simp

lemma update_env_fixed: "update_env k v (update_env k v xs) = update_env k v xs"
  by (induction xs) (auto simp: env_match_own')

lemma env_match_other:
  assumes "CHR ''='' \<notin> set k" and "CHR ''='' \<notin> set k'" and "k \<noteq> k'"
  shows "\<not> env_match k (k' @ ''='' @ v')"
proof
  assume "env_match k (k' @ ''='' @ v')"
  with assms(1) have "key_of (k' @ ''='' @ v') = Some k" by (simp add: env_match_key_of)
  moreover have "key_of (k' @ ''='' @ v') = Some k'"
    using env_match_own [of k' v'] assms(2) by (simp add: env_match_key_of)
  ultimately show False using assms(3) by simp
qed

lemma env_match_unique:
  assumes "CHR ''='' \<notin> set k" and "CHR ''='' \<notin> set k'" and "env_match k e" and "env_match k' e"
  shows "k = k'"
  using assms by (simp add: env_match_key_of)

lemma update_env_keeps_fixed:
  assumes "CHR ''='' \<notin> set k" and "CHR ''='' \<notin> set k'" and "k \<noteq> k'"
    and "update_env k v xs = xs"
  shows "update_env k v (update_env k' v' xs) = update_env k' v' xs"
  using assms(4)
proof (induction xs)
  case Nil
  then show ?case by simp
next
  case (Cons e es)
  show ?case
  proof (cases "env_match k e")
    case True
    with assms(1,2,3) have "\<not> env_match k' e" by (auto dest: env_match_unique)
    with True Cons.prems show ?thesis by simp
  next
    case False
    with Cons.prems have "update_env k v es = es" by simp
    with Cons.IH False env_match_other [OF assms(1,2,3)] show ?thesis by simp
  qed
qed

lemma apply_updates_fixed:
  assumes "distinct names" and "\<forall>k \<in> set names. CHR ''='' \<notin> set k"
    and "\<forall>(k, v) \<in> S. update_env k v xs = xs \<and> CHR ''='' \<notin> set k \<and> k \<notin> set names"
  shows "apply_updates names caps (apply_updates names caps xs) = apply_updates names caps xs
         \<and> (\<forall>(k, v) \<in> S. update_env k v (apply_updates names caps xs) = apply_updates names caps xs)"
  using assms
proof (induction names caps xs arbitrary: S rule: apply_updates.induct)
  case (1 key keys val vs xs)
  let ?xs = "update_env key val xs"
  let ?S = "insert (key, val) S"
  from "1.prems"(1) have d: "distinct keys" and kn: "key \<notin> set keys" by auto
  from "1.prems"(2) have e: "\<forall>k \<in> set keys. CHR ''='' \<notin> set k" and ke: "CHR ''='' \<notin> set key"
    by auto
  have s: "\<forall>(k, v) \<in> ?S. update_env k v ?xs = ?xs \<and> CHR ''='' \<notin> set k \<and> k \<notin> set keys"
  proof (clarify, intro conjI)
    fix k v assume kv: "(k, v) \<in> ?S"
    show "update_env k v ?xs = ?xs"
    proof (cases "(k, v) = (key, val)")
      case True
      then show ?thesis by (simp add: update_env_fixed)
    next
      case False
      with kv have in_S: "(k, v) \<in> S" by blast
      with "1.prems"(3) have f: "update_env k v xs = xs" and k1: "CHR ''='' \<notin> set k"
        and k2: "k \<noteq> key" by auto
      from update_env_keeps_fixed [OF k1 ke k2 f] show ?thesis .
    qed
    show "CHR ''='' \<notin> set k" using kv "1.prems"(3) ke by auto
    show "k \<notin> set keys" using kv "1.prems"(3) kn by auto
  qed
  from "1.IH" [OF d e s] have
    a: "apply_updates keys vs (apply_updates keys vs ?xs) = apply_updates keys vs ?xs"
    and b: "\<forall>(k, v) \<in> ?S. update_env k v (apply_updates keys vs ?xs) = apply_updates keys vs ?xs"
    by auto
  from b have c: "update_env key val (apply_updates keys vs ?xs) = apply_updates keys vs ?xs"
    by simp
  from a b c show ?case by auto
next
  case "2_1"
  then show ?case by auto
next
  case "2_2"
  then show ?case by (auto simp: apply_updates_Nil)
next
  case "2_3"
  then show ?case by auto
qed

lemma apply_updates_idem:
  assumes "distinct names" and "\<forall>k \<in> set names. CHR ''='' \<notin> set k"
  shows "apply_updates names caps (apply_updates names caps xs) = apply_updates names caps xs"
  using apply_updates_fixed [OF assms, of "{}" xs caps] by simp

lemma length_update_env: "length (update_env k v xs) \<le> Suc (length xs)"
  by (induction xs) auto

lemma length_apply_updates: "length (apply_updates names caps xs) \<le> length xs + length caps"
proof (induction names caps xs rule: apply_updates.induct)
  case (1 key keys val vs xs)
  with length_update_env [of key val xs] show ?case by simp
qed simp_all

lemma env_names_keys:
  assumes "names = env_names \<or> names = env_names_apple"
  shows "distinct names" and "\<forall>k \<in> set names. CHR ''='' \<notin> set k"
  using assms by (auto simp: env_names_def env_names_apple_def ENV_OUTPUT_def)

text \<open>
  Claim C6. With the names of the code (either configuration), a heap that is in order,
  a vector \<open>envp\<close>, captured slots that point to strings, and memory for both calls:
  \<^verbatim>\<open>string_array_partial_update\<close> applied to \<open>envp\<close>, and applied again to its own result
  with the same captured environment, return vectors that hold the same list of entries:
  the same keys and values, the same length, the same order.
\<close>

theorem string_array_partial_update_idempotent:
  assumes "names = env_names \<or> names = env_names_apple"
    and "heap_ok h" and "env_vector h envp xs"
    and "\<forall>v \<in> set env. v \<noteq> 0 \<longrightarrow> strs h v \<noteq> None"
    and "2 * length xs + 5 * length env + 2 \<le> avail h"
  shows "\<exists>q1 h1 q2 h2 ys. string_array_partial_update names h envp env = Inr (q1, h1)
           \<and> string_array_partial_update names h1 q1 env = Inr (q2, h2)
           \<and> string_array h1 q1 ys \<and> string_array h2 q2 ys"
proof -
  let ?ys = "apply_updates names (captured h env) xs"
  from assms(5) have av: "length xs + 1 + 2 * length env \<le> avail h" by simp
  from partial_update_owned [OF assms(2,3,4) av, of names] obtain q1 h1 as1 rest1 where
    r1: "string_array_partial_update names h envp env = Inr (q1, h1)"
    and o1: "owned (brk h) h1 q1 as1 rest1 ?ys"
    and u1: "unchanged_upto (brk h) h h1"
    and a1: "avail h - (length xs + 1 + 2 * length env) \<le> avail h1" by blast
  from o1 have ok1: "heap_ok h1" and q0: "q1 \<noteq> 0" by (auto simp: owned_def)
  from o1 have s1: "string_array h1 q1 ?ys" by (rule owned_string_array)
  with q0 have v1: "env_vector h1 q1 ?ys" by (simp add: env_vector_def)
  have cb: "\<forall>v \<in> set env. v \<noteq> 0 \<longrightarrow> v \<le> brk h \<and> strs h v \<noteq> None"
    using assms(2,4) by (auto dest: heap_ok_str_le)
  with u1 have c1: "\<forall>v \<in> set env. v \<noteq> 0 \<longrightarrow> strs h1 v \<noteq> None"
    by (auto simp: unchanged_upto_def)
  from cb u1 have ceq: "captured h1 env = captured h env"
    by (auto simp: captured_def unchanged_upto_def)
  have "length ?ys \<le> length xs + length env"
    using length_apply_updates [of names "captured h env" xs] by (simp add: captured_def)
  with assms(5) a1 have av1: "length ?ys + 1 + 2 * length env \<le> avail h1" by simp
  from partial_update_owned [OF ok1 v1 c1 av1, of names] obtain q2 h2 as2 rest2 where
    r2: "string_array_partial_update names h1 q1 env = Inr (q2, h2)"
    and o2: "owned (brk h1) h2 q2 as2 rest2 (apply_updates names (captured h1 env) ?ys)"
    by blast
  from o2 have "string_array h2 q2 (apply_updates names (captured h1 env) ?ys)"
    by (rule owned_string_array)
  with ceq apply_updates_idem [OF env_names_keys [OF assms(1)], of "captured h env" xs]
  have "string_array h2 q2 ?ys" by simp
  with r1 r2 s1 show ?thesis by blast
qed

text \<open>The theorem on the example heap with both values captured.\<close>

theorem string_array_partial_update_idempotent_witness:
  "heap_ok example_heap
   \<and> env_vector example_heap 3 [''A=1'', ''LD_PRELOAD=old'']
   \<and> (\<exists>q1 h1 q2 h2 ys. string_array_partial_update env_names example_heap 3 [4, 5] = Inr (q1, h1)
          \<and> string_array_partial_update env_names h1 q1 [4, 5] = Inr (q2, h2)
          \<and> string_array h1 q1 ys \<and> string_array h2 q2 ys)"
proof -
  have n: "env_names = env_names \<or> env_names = env_names_apple" by simp
  have c: "\<forall>v \<in> set [4, 5]. v \<noteq> 0 \<longrightarrow> strs example_heap v \<noteq> None"
    by (simp add: example_heap_def)
  have av: "2 * length [''A=1'', ''LD_PRELOAD=old''] + 5 * length [4, 5 :: nat] + 2
             \<le> avail example_heap"
    by (simp add: example_heap_def)
  from string_array_partial_update_idempotent [OF n heap_ok_example env_vector_example c av]
    heap_ok_example env_vector_example
  show ?thesis by simp
qed

section \<open>Properties of the report writer\<close>

lemma encoded_text:
  assumes "encodable mbstowcs s n"
  shows "\<exists>m. encode_json_string mbstowcs s n = (0, m)
           \<and> c_string m 0 n = Some (escaped_text mbstowcs s)"
proof -
  from assms obtain ws where d: "mbstowcs s = Some ws"
    and r: "\<forall>w \<in> set ws. 0 \<le> w \<and> w \<le> 65535"
    and l: "length (concat (map json_escape ws)) < n"
    by (auto simp: encodable_def list_all_iff split: option.splits)
  have "holds Map.empty []" by (simp add: holds_def)
  from encode_loop_holds [OF this r] l obtain m where
    m: "encode_loop ws n 0 Map.empty = (0, m)"
    and h: "holds m (concat (map json_escape ws) @ [NUL])" by auto
  have "NUL \<notin> set (concat (map json_escape ws))" by (auto simp: json_escape_no_NUL)
  from c_string_holds [OF h this l] m d show ?thesis
    by (simp add: encode_json_string_def escaped_text_def)
qed

lemma dprintf_ok:
  "length s \<le> room fd \<Longrightarrow>
     dprintf fd s = (int (length s), fd\<lparr>content := content fd @ s, room := room fd - length s\<rparr>)"
  by (simp add: dprintf_def)

lemma report_args_ok:
  assumes "0 \<notin> set as" and "map (strs h) as = map Some args"
    and "\<forall>a \<in> set args. encodable mbstowcs a (6 * length a + 1)"
    and "length (cmd_items first (map (escaped_text mbstowcs) args)) \<le> room fd"
  shows "report_args mbstowcs h first (as @ 0 # rest) fd
           = Inr (0, fd\<lparr>content := content fd @ cmd_items first (map (escaped_text mbstowcs) args),
                         room := room fd - length (cmd_items first (map (escaped_text mbstowcs) args))\<rparr>)"
  using assms
proof (induction as arbitrary: args first fd)
  case Nil
  then show ?case by simp
next
  case (Cons a as)
  from Cons.prems(2) obtain x xs where args: "args = x # xs" and x: "strs h a = Some x"
    and m: "map (strs h) as = map Some xs" by (cases args) auto
  from Cons.prems(1) have a0: "a \<noteq> 0" and nz: "0 \<notin> set as" by auto
  from Cons.prems(3) args have ex: "encodable mbstowcs x (6 * length x + 1)"
    and exs: "\<forall>a \<in> set xs. encodable mbstowcs a (6 * length a + 1)" by auto
  from encoded_text [OF ex] obtain buf where
    e: "encode_json_string mbstowcs x (6 * length x + 1) = (0, buf)"
    and c: "c_string buf 0 (6 * length x + 1) = Some (escaped_text mbstowcs x)" by blast
  define item where \<open>item = (if first then [] else '','') @ '' "'' @ escaped_text mbstowcs x @ ''"''\<close>
  define fd1 where "fd1 = fd\<lparr>content := content fd @ item, room := room fd - length item\<rparr>"
  have split: "cmd_items first (map (escaped_text mbstowcs) args)
                 = item @ cmd_items False (map (escaped_text mbstowcs) xs)"
    by (simp add: args item_def)
  with Cons.prems(4) have l1: "length item \<le> room fd"
    and l2: "length (cmd_items False (map (escaped_text mbstowcs) xs)) \<le> room fd1"
    by (simp_all add: fd1_def)
  have d: "dprintf fd item = (int (length item), fd1)"
    using dprintf_ok [OF l1] by (simp add: fd1_def)
  have step: "report_args mbstowcs h first ((a # as) @ 0 # rest) fd
                = report_args mbstowcs h False (as @ 0 # rest) fd1"
    using a0 x e c d by (simp add: Let_def item_def)
  from Cons.IH [OF nz m exs l2] step split show ?case
    by (simp add: fd1_def)
qed

lemma cmd_items_join:
  \<open>cmd_items True ts = join '','' (map (\<lambda>t. '' "'' @ t @ ''"'') ts)\<close>
proof -
  have \<open>cmd_items first (t # ts)
          = (if first then [] else '','') @ join '','' (map (\<lambda>t. '' "'' @ t @ ''"'') (t # ts))\<close>
    for first t ts
    by (induction ts arbitrary: first t) auto
  then show ?thesis by (cases ts) auto
qed

lemma peek_layout:
  assumes "peek h p = Some xs"
  shows "p \<noteq> 0 \<and> (\<exists>as rest. arrs h p = Some (as @ 0 # rest) \<and> 0 \<notin> set as
                       \<and> map (strs h) as = map Some xs)"
proof -
  from assms obtain slots where p: "p \<noteq> 0" and s: "arrs h p = Some slots" "0 \<in> set slots"
    "\<forall>a \<in> set (takeWhile (\<lambda>a. a \<noteq> 0) slots). strs h a \<noteq> None"
    "xs = map (\<lambda>a. the (strs h a)) (takeWhile (\<lambda>a. a \<noteq> 0) slots)"
    by (auto simp: peek_def split: if_splits option.splits)
  from split_at_null [OF s(2)] obtain rest where
    r: "slots = takeWhile (\<lambda>a. a \<noteq> 0) slots @ 0 # rest" by blast
  have "0 \<notin> set (takeWhile (\<lambda>a. a \<noteq> 0) slots)" by (auto dest: set_takeWhileD)
  moreover have "map (strs h) (takeWhile (\<lambda>a. a \<noteq> 0) slots) = map Some xs"
    using s(3,4) by auto
  ultimately show ?thesis using p s(1) r by metis
qed

lemma write_json_report_ok:
  assumes v: "cmd = 0 \<and> args = [] \<or> peek h cmd = Some args"
    and cwd: "strs h cwd = Some dir"
    and ea: "\<forall>a \<in> set args. encodable mbstowcs a (6 * length a + 1)"
    and ed: "encodable mbstowcs dir (6 * length dir)"
    and rm: "length (report_body pid (map (escaped_text mbstowcs) args) (escaped_text mbstowcs dir))
              \<le> room fd"
  shows "write_json_report mbstowcs h fd cmd cwd pid
           = Inr (0, fd\<lparr>content := content fd
                           @ report_body pid (map (escaped_text mbstowcs) args)
                               (escaped_text mbstowcs dir),
                         room := room fd
                           - length (report_body pid (map (escaped_text mbstowcs) args)
                               (escaped_text mbstowcs dir))\<rparr>)"
proof -
  define head where \<open>head = ''{ "pid": '' @ printf_d pid @ '', "cmd": [''\<close>
  define items where "items = cmd_items True (map (escaped_text mbstowcs) args)"
  define tail where \<open>tail = ''], "cwd": "'' @ escaped_text mbstowcs dir @ ''" }''\<close>
  define fd1 where "fd1 = fd\<lparr>content := content fd @ head, room := room fd - length head\<rparr>"
  define fd2 where "fd2 = fd1\<lparr>content := content fd1 @ items, room := room fd1 - length items\<rparr>"
  define fd3 where "fd3 = fd2\<lparr>content := content fd2 @ tail, room := room fd2 - length tail\<rparr>"
  have body: "report_body pid (map (escaped_text mbstowcs) args) (escaped_text mbstowcs dir)
                = head @ items @ tail"
    by (simp add: report_body_def head_def items_def tail_def cmd_items_join)
  with rm have l: "length head \<le> room fd" "length items \<le> room fd1" "length tail \<le> room fd2"
    by (simp_all add: fd1_def fd2_def)
  have d1: "dprintf fd head = (int (length head), fd1)"
    using dprintf_ok [OF l(1)] by (simp add: fd1_def)
  have d3: "dprintf fd2 tail = (int (length tail), fd3)"
    using dprintf_ok [OF l(3)] by (simp add: fd3_def)
  have loop: "(if cmd = 0 then Inr (0, fd1)
               else (case arrs h cmd of
                       None \<Rightarrow> Inl Fault
                     | Some slots \<Rightarrow> report_args mbstowcs h True slots fd1)) = Inr (0, fd2)"
  proof (cases "cmd = 0 \<and> args = []")
    case True
    then show ?thesis by (simp add: fd2_def items_def)
  next
    case False
    with v have p: "peek h cmd = Some args" by auto
    from peek_layout [OF p] obtain as rest where c0: "cmd \<noteq> 0"
      and arr: "arrs h cmd = Some (as @ 0 # rest)" and nz: "0 \<notin> set as"
      and m: "map (strs h) as = map Some args" by blast
    from l(2) have "length (cmd_items True (map (escaped_text mbstowcs) args)) \<le> room fd1"
      by (simp add: items_def)
    from report_args_ok [OF nz m ea this, of rest] c0 arr show ?thesis
      by (simp add: fd2_def items_def)
  qed
  from encoded_text [OF ed] obtain buf where
    e: "encode_json_string mbstowcs dir (6 * length dir) = (0, buf)"
    and c: "c_string buf 0 (6 * length dir) = Some (escaped_text mbstowcs dir)" by blast
  have "write_json_report mbstowcs h fd cmd cwd pid = Inr (0, fd3)"
    unfolding write_json_report_def head_def [symmetric]
    using d1 loop cwd e c d3 by (simp add: Let_def tail_def)
  then show ?thesis by (simp add: body fd1_def fd2_def fd3_def)
qed

lemmas eval_report =
  encodable_def escaped_text_def utf8_mbstowcs_def cont_byte_def json_escape_def
  short_escape_def char_of_def hex4_def hex_digit_def report_body_def report_body_spec_def
  printf_d_def dec_of.simps dec_digit_def argv_heap_def peek_def backslash_def dquote_def

lemma argv_example:
  \<open>peek argv_heap 3 = Some [''/bin/echo'', ''a"b'']\<close>
  \<open>strs argv_heap 4 = Some ''/tmp''\<close>
  \<open>\<forall>a \<in> set [''/bin/echo'', ''a"b'']. encodable utf8_mbstowcs a (6 * length a + 1)\<close>
  \<open>encodable utf8_mbstowcs ''/tmp'' (6 * length ''/tmp'')\<close>
  \<open>report_body 4242 (map (escaped_text utf8_mbstowcs) [''/bin/echo'', ''a"b''])
      (escaped_text utf8_mbstowcs ''/tmp'')
     = ''{ "pid": 4242, "cmd": [ "/bin/echo", "a'' @ [backslash] @ ''"b"], "cwd": "/tmp" }''\<close>
  by (simp_all add: eval_report)

text \<open>
  Claim C1, as amended. Let \<open>cmd\<close> be the null pointer or a vector of the arguments
  \<open>args\<close>, let every argument be encodable into its buffer of \<open>6 * strlen + 1\<close> bytes and
  the working directory into its buffer of \<open>6 * strlen\<close> bytes, and let the descriptor
  accept the text. Then \<^verbatim>\<open>write_json_report\<close> returns \<open>0\<close> and appends exactly one JSON
  object and nothing after its closing brace: the key \<^verbatim>\<open>pid\<close> with the process id in
  decimal, the key \<^verbatim>\<open>cmd\<close> with the escaped arguments in the order of \<open>args\<close>, each after
  a blank and in double quotes, separated by commas and directly followed by the closing
  bracket, and the key \<^verbatim>\<open>cwd\<close> with the escaped directory. No arguments give the empty
  array \<^verbatim>\<open>[]\<close>.
\<close>

theorem write_json_report_body:
  assumes "cmd = 0 \<and> args = [] \<or> peek h cmd = Some args"
    and "strs h cwd = Some dir"
    and "\<forall>a \<in> set args. encodable mbstowcs a (6 * length a + 1)"
    and "encodable mbstowcs dir (6 * length dir)"
    and "length (report_body pid (map (escaped_text mbstowcs) args) (escaped_text mbstowcs dir))
           \<le> room fd"
  shows \<open>write_json_report mbstowcs h fd cmd cwd pid
           = Inr (0, fd\<lparr>content := content fd
                           @ report_body pid (map (escaped_text mbstowcs) args)
                               (escaped_text mbstowcs dir),
                         room := room fd
                           - length (report_body pid (map (escaped_text mbstowcs) args)
                               (escaped_text mbstowcs dir))\<rparr>)
         \<and> report_body pid [] (escaped_text mbstowcs dir)
             = ''{ "pid": '' @ printf_d pid @ '', "cmd": [], "cwd": "''
                 @ escaped_text mbstowcs dir @ ''" }''\<close>
proof
  show \<open>report_body pid [] (escaped_text mbstowcs dir)
          = ''{ "pid": '' @ printf_d pid @ '', "cmd": [], "cwd": "''
              @ escaped_text mbstowcs dir @ ''" }''\<close>
    by (simp add: report_body_def)
qed (rule write_json_report_ok [OF assms])

text \<open>
  The theorem at the example of the specification, the arguments \<^verbatim>\<open>/bin/echo\<close> and
  \<^verbatim>\<open>a"b\<close>, the directory \<^verbatim>\<open>/tmp\<close> and the process id \<open>4242\<close>: the body ends its array
  with \<^verbatim>\<open>"a\"b"]\<close>.
\<close>

theorem write_json_report_body_witness:
  \<open>peek argv_heap 3 = Some [''/bin/echo'', ''a"b'']
   \<and> strs argv_heap 4 = Some ''/tmp''
   \<and> write_json_report utf8_mbstowcs argv_heap \<lparr>content = [], room = 100\<rparr> 3 4 4242
       = Inr (0, \<lparr>content = ''{ "pid": 4242, "cmd": [ "/bin/echo", "a'' @ [backslash]
                               @ ''"b"], "cwd": "/tmp" }'',
                  room = 39\<rparr>)\<close>
proof -
  have v: \<open>3 = (0::nat) \<and> [''/bin/echo'', ''a"b''] = [] \<or> peek argv_heap 3 = Some [''/bin/echo'', ''a"b'']\<close>
    using argv_example(1) by simp
  have r: \<open>length (report_body 4242 (map (escaped_text utf8_mbstowcs) [''/bin/echo'', ''a"b''])
             (escaped_text utf8_mbstowcs ''/tmp'')) \<le> room \<lparr>content = [], room = 100\<rparr>\<close>
    unfolding argv_example(5) by simp
  from write_json_report_body [OF v argv_example(2,3,4) r, THEN conjunct1] argv_example(1,2)
  show ?thesis unfolding argv_example(5) by simp
qed

text \<open>
  Claim C1 as stated gives the body of this example with a blank before the closing
  bracket, \<^verbatim>\<open>"a\"b" ]\<close>. The format of the code, \<^verbatim>\<open>], "cwd": "%s" }\<close>, has no such blank,
  so the text written differs from the one claimed.
\<close>

theorem write_json_report_blank_counterexample:
  \<open>write_json_report utf8_mbstowcs argv_heap \<lparr>content = [], room = 100\<rparr> 3 4 4242
     = Inr (0, \<lparr>content = ''{ "pid": 4242, "cmd": [ "/bin/echo", "a'' @ [backslash]
                             @ ''"b"], "cwd": "/tmp" }'',
                room = 39\<rparr>)
   \<and> report_body_spec 4242 (map (escaped_text utf8_mbstowcs) [''/bin/echo'', ''a"b''])
         (escaped_text utf8_mbstowcs ''/tmp'')
       = ''{ "pid": 4242, "cmd": [ "/bin/echo", "a'' @ [backslash] @ ''"b" ], "cwd": "/tmp" }''
   \<and> ''{ "pid": 4242, "cmd": [ "/bin/echo", "a'' @ [backslash] @ ''"b"], "cwd": "/tmp" }''
       \<noteq> ''{ "pid": 4242, "cmd": [ "/bin/echo", "a'' @ [backslash] @ ''"b" ], "cwd": "/tmp" }''\<close>
proof -
  have v: \<open>3 = (0::nat) \<and> [''/bin/echo'', ''a"b''] = [] \<or> peek argv_heap 3 = Some [''/bin/echo'', ''a"b'']\<close>
    using argv_example(1) by simp
  have r: \<open>length (report_body 4242 (map (escaped_text utf8_mbstowcs) [''/bin/echo'', ''a"b''])
             (escaped_text utf8_mbstowcs ''/tmp'')) \<le> room \<lparr>content = [], room = 100\<rparr>\<close>
    unfolding argv_example(5) by simp
  have s: \<open>report_body_spec 4242 (map (escaped_text utf8_mbstowcs) [''/bin/echo'', ''a"b''])
         (escaped_text utf8_mbstowcs ''/tmp'')
       = ''{ "pid": 4242, "cmd": [ "/bin/echo", "a'' @ [backslash] @ ''"b" ], "cwd": "/tmp" }''\<close>
    by (simp add: eval_report)
  from write_json_report_ok [OF v argv_example(2,3,4) r] s
  show ?thesis unfolding argv_example(5) by simp
qed

subsection \<open>The null pointer as a string array\<close>

text \<open>
  Claim C10. In a heap that is in order: \<^verbatim>\<open>string_array_length\<close> of the null pointer is
  \<open>0\<close>; \<^verbatim>\<open>string_array_copy\<close> of the null pointer returns, when \<^verbatim>\<open>malloc\<close> succeeds, a
  non-null block at an address that was unused, holding only the null slot, and leaves the
  heap it started from unchanged; \<^verbatim>\<open>string_array_release\<close> of the null pointer returns
  without a fault and frees nothing; and \<^verbatim>\<open>write_json_report\<close> with a null argument vector
  (the directory encodable, the descriptor accepting the text) writes the body with the
  empty array \<^verbatim>\<open>"cmd": []\<close>.
\<close>

theorem null_string_array:
  assumes "heap_ok h" and "0 < avail h" and "strs h cwd = Some dir"
    and "encodable mbstowcs dir (6 * length dir)"
    and "length (report_body pid [] (escaped_text mbstowcs dir)) \<le> room fd"
  shows \<open>string_array_length h 0 = Inr 0
         \<and> (\<exists>q h'. string_array_copy h 0 = Inr (q, h') \<and> q \<noteq> 0
                \<and> strs h q = None \<and> arrs h q = None \<and> arrs h' q = Some [0]
                \<and> unchanged_upto (brk h) h h')
         \<and> string_array_release h 0 = Inr h
         \<and> write_json_report mbstowcs h fd 0 cwd pid
             = Inr (0, fd\<lparr>content := content fd @ ''{ "pid": '' @ printf_d pid
                                 @ '', "cmd": [], "cwd": "'' @ escaped_text mbstowcs dir @ ''" }'',
                           room := room fd - length (report_body pid [] (escaped_text mbstowcs dir))\<rparr>)\<close>
proof (intro conjI)
  show "string_array_length h 0 = Inr 0" by (simp add: string_array_length_def)
  show "string_array_release h 0 = Inr h" by (simp add: string_array_release_def free_def)
  have v: "env_vector h 0 []" by (simp add: env_vector_def)
  from assms(2) have av: "length ([] :: string list) + 1 \<le> avail h" by simp
  from string_array_copy_owned [OF assms(1) v av] obtain h' as where
    c: "string_array_copy h 0 = Inr (Suc (brk h), h')"
    and o: "owned (brk h) h' (Suc (brk h)) as [] []"
    and u: "unchanged_upto (brk h) h h'" by blast
  from o have "arrs h' (Suc (brk h)) = Some [0]" by (simp add: owned_def layout_def)
  moreover from assms(1) have "strs h (Suc (brk h)) = None" "arrs h (Suc (brk h)) = None"
    by (simp_all add: heap_ok_def)
  ultimately show "\<exists>q h'. string_array_copy h 0 = Inr (q, h') \<and> q \<noteq> 0
                \<and> strs h q = None \<and> arrs h q = None \<and> arrs h' q = Some [0]
                \<and> unchanged_upto (brk h) h h'"
    using c u by auto
  have n: "(0::nat) = 0 \<and> ([] :: string list) = [] \<or> peek h 0 = Some []" by simp
  have e: "\<forall>a \<in> set []. encodable mbstowcs a (6 * length a + 1)" by simp
  from assms(5) have r: "length (report_body pid (map (escaped_text mbstowcs) [])
      (escaped_text mbstowcs dir)) \<le> room fd" by simp
  from write_json_report_ok [OF n assms(3) e assms(4) r]
  show \<open>write_json_report mbstowcs h fd 0 cwd pid
             = Inr (0, fd\<lparr>content := content fd @ ''{ "pid": '' @ printf_d pid
                                 @ '', "cmd": [], "cwd": "'' @ escaped_text mbstowcs dir @ ''" }'',
                           room := room fd - length (report_body pid [] (escaped_text mbstowcs dir))\<rparr>)\<close>
    by (simp add: report_body_def)
qed

text \<open>The theorem on the heap of the example, with the directory \<^verbatim>\<open>/tmp\<close>.\<close>

theorem null_string_array_witness:
  \<open>heap_ok argv_heap
   \<and> string_array_length argv_heap 0 = Inr 0
   \<and> (\<exists>q h'. string_array_copy argv_heap 0 = Inr (q, h') \<and> q \<noteq> 0
          \<and> strs argv_heap q = None \<and> arrs argv_heap q = None \<and> arrs h' q = Some [0]
          \<and> unchanged_upto 4 argv_heap h')
   \<and> string_array_release argv_heap 0 = Inr argv_heap
   \<and> write_json_report utf8_mbstowcs argv_heap \<lparr>content = [], room = 100\<rparr> 0 4 4242
       = Inr (0, \<lparr>content = ''{ "pid": 4242, "cmd": [], "cwd": "/tmp" }'', room = 59\<rparr>)\<close>
proof -
  have ok: "heap_ok argv_heap" by (auto simp: heap_ok_def argv_heap_def)
  have av: "0 < avail argv_heap" by (simp add: argv_heap_def)
  have b: "report_body 4242 [] (escaped_text utf8_mbstowcs ''/tmp'')
             = ''{ \"pid\": 4242, \"cmd\": [], \"cwd\": \"/tmp\" }''"
    by (simp add: eval_report)
  have r: "length (report_body 4242 [] (escaped_text utf8_mbstowcs ''/tmp''))
             \<le> room \<lparr>content = [], room = 100\<rparr>"
    unfolding b by simp
  have p: "printf_d 4242 = ''4242''" "escaped_text utf8_mbstowcs ''/tmp'' = ''/tmp''"
    "brk argv_heap = 4"
    "report_body 4242 [] ''/tmp'' = ''{ \"pid\": 4242, \"cmd\": [], \"cwd\": \"/tmp\" }''"
    by (simp_all add: eval_report)
  from null_string_array [OF ok av argv_example(2,4) r] ok
  show ?thesis unfolding b p by simp
qed

subsection \<open>The destination sizes of the callers and a failed conversion\<close>






section \<open>Properties of load and unload\<close>

lemma strdup_cases:
  "strdup h s = (0, h) \<and> avail h = 0
   \<or> strdup h s = (Suc (brk h), h\<lparr>strs := (strs h)(Suc (brk h) \<mapsto> s), brk := Suc (brk h),
                                   avail := avail h - 1\<rparr>) \<and> 0 < avail h"
  by (simp add: strdup_def)

lemma capture_loop_props:
  assumes "heap_ok h" and "capture_loop genv names h st = (env, st', h')"
  shows "length env = length names \<and> heap_ok h' \<and> unchanged_upto (brk h) h h' \<and> brk h \<le> brk h'
         \<and> list_all2 (\<lambda>name p. p \<noteq> 0 \<longrightarrow> brk h < p \<and> genv name \<noteq> None \<and> strs h' p = genv name)
              names env
         \<and> (length names \<le> avail h \<longrightarrow> list_all2 (\<lambda>name p. genv name \<noteq> None \<longrightarrow> p \<noteq> 0) names env)
         \<and> st' = (if \<forall>p \<in> set env. p \<noteq> 0 then st else 0)
         \<and> distinct (filter (\<lambda>p. p \<noteq> 0) env)
         \<and> (\<forall>p \<in> set env. p \<le> brk h')"
  using assms
proof (induction names arbitrary: h st env st' h')
  case Nil
  then show ?case by (simp add: unchanged_upto_refl)
next
  case (Cons name names)
  obtain c h1 where c: "(case genv name of None \<Rightarrow> (0, h) | Some v \<Rightarrow> strdup h v) = (c, h1)"
    by (cases "case genv name of None \<Rightarrow> (0, h) | Some v \<Rightarrow> strdup h v") auto
  obtain env1 st1 h2 where r: "capture_loop genv names h1 (if c \<noteq> 0 then st else 0) = (env1, st1, h2)"
    by (cases "capture_loop genv names h1 (if c \<noteq> 0 then st else 0)") auto
  from Cons.prems(2) c r have res: "env = c # env1" "st' = st1" "h' = h2" by simp_all
  have h1c: "heap_ok h1 \<and> unchanged_upto (brk h) h h1 \<and> brk h \<le> brk h1
          \<and> c \<le> brk h1
          \<and> (c \<noteq> 0 \<longrightarrow> brk h < c \<and> genv name \<noteq> None \<and> strs h1 c = genv name)
          \<and> (0 < avail h \<and> genv name \<noteq> None \<longrightarrow> c \<noteq> 0) \<and> avail h - 1 \<le> avail h1"
  proof (cases "genv name")
    case None
    with c Cons.prems(1) show ?thesis by (simp add: unchanged_upto_refl)
  next
    case (Some v)
    with c have sd: "strdup h v = (c, h1)" by simp
    show ?thesis
    proof (cases "avail h = 0")
      case True
      with sd have "c = 0" "h1 = h" by (simp_all add: strdup_def)
      with Cons.prems(1) True show ?thesis by (simp add: unchanged_upto_refl)
    next
      case False
      with sd have e: "c = Suc (brk h)"
        "h1 = h\<lparr>strs := (strs h)(Suc (brk h) \<mapsto> v), brk := Suc (brk h), avail := avail h - 1\<rparr>"
        by (auto simp: strdup_def)
      have "heap_ok h1" using Cons.prems(1) unfolding e by (auto simp: heap_ok_def)
      moreover have "unchanged_upto (brk h) h h1" unfolding e by (auto simp: unchanged_upto_def)
      ultimately show ?thesis using Some unfolding e by simp
    qed
  qed
  then have h1: "heap_ok h1" "unchanged_upto (brk h) h h1" "brk h \<le> brk h1" "c \<le> brk h1"
    "c \<noteq> 0 \<longrightarrow> brk h < c \<and> genv name \<noteq> None \<and> strs h1 c = genv name"
    "0 < avail h \<and> genv name \<noteq> None \<longrightarrow> c \<noteq> 0" "avail h - 1 \<le> avail h1"
    by blast+
  from Cons.IH [OF h1(1) r] have ih:
    "length env1 = length names" "heap_ok h2" "unchanged_upto (brk h1) h1 h2" "brk h1 \<le> brk h2"
    "list_all2 (\<lambda>name p. p \<noteq> 0 \<longrightarrow> brk h1 < p \<and> genv name \<noteq> None \<and> strs h2 p = genv name)
       names env1"
    "length names \<le> avail h1 \<longrightarrow> list_all2 (\<lambda>name p. genv name \<noteq> None \<longrightarrow> p \<noteq> 0) names env1"
    "st1 = (if \<forall>p \<in> set env1. p \<noteq> 0 then (if c \<noteq> 0 then st else 0) else 0)"
    "distinct (filter (\<lambda>p. p \<noteq> 0) env1)" "\<forall>p \<in> set env1. p \<le> brk h2"
    by simp_all
  have u: "unchanged_upto (brk h) h h2"
    using h1(2,3) ih(3) by (simp add: unchanged_upto_def)
  have sc: "c \<noteq> 0 \<longrightarrow> strs h2 c = genv name"
    using h1(4,5) ih(3) by (simp add: unchanged_upto_def)
  have l2: "list_all2 (\<lambda>name p. p \<noteq> 0 \<longrightarrow> brk h < p \<and> genv name \<noteq> None \<and> strs h2 p = genv name)
       names env1"
    by (rule list_all2_mono [OF ih(5)]) (use h1(3) in auto)
  have cn: "c \<noteq> 0 \<longrightarrow> c \<notin> set (filter (\<lambda>p. p \<noteq> 0) env1)"
  proof (intro impI notI)
    assume "c \<noteq> 0" and "c \<in> set (filter (\<lambda>p. p \<noteq> 0) env1)"
    then obtain i where "i < length env1" "env1 ! i = c" by (auto simp: in_set_conv_nth)
    with ih(5) \<open>c \<noteq> 0\<close> have "brk h1 < c" by (auto dest: list_all2_nthD2)
    with h1(4) show False by simp
  qed
  have m: "length (name # names) \<le> avail h \<longrightarrow>
           list_all2 (\<lambda>name p. genv name \<noteq> None \<longrightarrow> p \<noteq> 0) (name # names) (c # env1)"
    using ih(6) h1(6,7) by auto
  have "length (c # env1) = length (name # names)" using ih(1) by simp
  moreover have "brk h \<le> brk h2" using h1(3) ih(4) by simp
  moreover have "list_all2 (\<lambda>name p. p \<noteq> 0 \<longrightarrow> brk h < p \<and> genv name \<noteq> None \<and> strs h2 p = genv name)
       (name # names) (c # env1)"
    using l2 sc h1(5) by simp
  moreover have "st1 = (if \<forall>p \<in> set (c # env1). p \<noteq> 0 then st else 0)"
    using ih(7) by auto
  moreover have "distinct (filter (\<lambda>p. p \<noteq> 0) (c # env1))"
    using ih(8) cn by simp
  moreover have "\<forall>p \<in> set (c # env1). p \<le> brk h2"
    using ih(9) h1(4) ih(4) by simp
  ultimately show ?case
    unfolding res using ih(2) u m by blast
qed

lemma release_env_t_frees:
  assumes "\<forall>p \<in> set env. p \<noteq> 0 \<longrightarrow> strs h p \<noteq> None"
    and "distinct (filter (\<lambda>p. p \<noteq> 0) env)"
  shows "\<exists>h'. release_env_t h env = Inr (replicate (length env) 0, h')
           \<and> (\<forall>p \<in> set env. p \<noteq> 0 \<longrightarrow> strs h' p = None)
           \<and> (\<forall>a. a \<notin> set env \<longrightarrow> strs h' a = strs h a)"
  using assms
proof (induction env arbitrary: h)
  case Nil
  then show ?case by simp
next
  case (Cons p ps)
  define h1 where "h1 = (if p = 0 then h
                         else h\<lparr>strs := (strs h)(p := None), arrs := (arrs h)(p := None)\<rparr>)"
  have f: "free h p = Inr h1" using Cons.prems(1) by (auto simp: free_def h1_def)
  have pn: "p \<noteq> 0 \<longrightarrow> p \<notin> set ps" using Cons.prems(2) by auto
  have a: "\<forall>q \<in> set ps. q \<noteq> 0 \<longrightarrow> strs h1 q \<noteq> None"
    using Cons.prems(1) pn by (auto simp: h1_def)
  have d: "distinct (filter (\<lambda>p. p \<noteq> 0) ps)" using Cons.prems(2) by (simp split: if_splits)
  from Cons.IH [OF a d] obtain h' where
    r: "release_env_t h1 ps = Inr (replicate (length ps) 0, h')"
    and z: "\<forall>p \<in> set ps. p \<noteq> 0 \<longrightarrow> strs h' p = None"
    and k: "\<forall>a. a \<notin> set ps \<longrightarrow> strs h' a = strs h1 a" by blast
  have "release_env_t h (p # ps) = Inr (replicate (length (p # ps)) 0, h')" using f r by simp
  moreover have "\<forall>q \<in> set (p # ps). q \<noteq> 0 \<longrightarrow> strs h' q = None"
    using z k pn by (auto simp: h1_def)
  moreover have "\<forall>a. a \<notin> set (p # ps) \<longrightarrow> strs h' a = strs h a"
    using k by (auto simp: h1_def)
  ultimately show ?case by blast
qed

lemma initialized_False_id: "\<not> initialized t \<Longrightarrow> t\<lparr>initialized := False\<rparr> = t"
  by (cases t) simp

lemmas eval_load =
  on_load_def on_unload_def mt_safe_on_load_def mt_safe_on_unload_def capture_env_t_def
  unloaded_def preload_only_def output_only_def empty_heap_def env_names_def ENV_OUTPUT_def
  strdup_def free_def

lemma capture_loop_memory:
  assumes "capture_loop genv names h st = (env, st', h')" and "\<forall>p \<in> set env. p \<noteq> 0"
  shows "length names \<le> avail h"
  using assms
proof (induction names arbitrary: h st env st' h')
  case Nil
  then show ?case by simp
next
  case (Cons name names)
  obtain c h1 where c: "(case genv name of None \<Rightarrow> (0, h) | Some v \<Rightarrow> strdup h v) = (c, h1)"
    by (cases "case genv name of None \<Rightarrow> (0, h) | Some v \<Rightarrow> strdup h v") auto
  obtain env1 st1 h2 where r: "capture_loop genv names h1 (if c \<noteq> 0 then st else 0) = (env1, st1, h2)"
    by (cases "capture_loop genv names h1 (if c \<noteq> 0 then st else 0)") auto
  from Cons.prems(1) c r have res: "env = c # env1" by simp
  with Cons.prems(2) have c0: "c \<noteq> 0" and e1: "\<forall>p \<in> set env1. p \<noteq> 0" by simp_all
  from c c0 obtain v where "strdup h v = (c, h1)" by (cases "genv name") auto
  with c0 have "0 < avail h" "avail h1 = avail h - 1"
    by (auto simp: strdup_def split: if_splits)
  with Cons.IH [OF r e1] show ?case by simp
qed

lemma capture_fails:
  assumes "heap_ok h"
    and "(\<exists>name \<in> set names. genv name = None) \<or> avail h < length names"
  shows "0 \<in> set (fst (capture_env_t genv names h))"
proof -
  obtain env st h' where c: "capture_loop genv names h 1 = (env, st, h')"
    by (cases "capture_loop genv names h 1") auto
  have "\<not> (\<forall>p \<in> set env. p \<noteq> 0)"
  proof
    assume a: "\<forall>p \<in> set env. p \<noteq> 0"
    from capture_loop_memory [OF c a] assms(2) obtain name where
      n: "name \<in> set names" "genv name = None" by auto
    then obtain i where i: "i < length names" "names ! i = name" by (auto simp: in_set_conv_nth)
    from capture_loop_props [OF assms(1) c] have
      l: "length env = length names"
      and p: "list_all2 (\<lambda>name p. p \<noteq> 0 \<longrightarrow> brk h < p \<and> genv name \<noteq> None \<and> strs h' p = genv name)
                names env" by simp_all
    from list_all2_nthD [OF p i(1)] i(2) n(2) have "env ! i = 0" by auto
    with i(1) l a show False by (metis nth_mem)
  qed
  with c show ?thesis by (auto simp: capture_env_t_def)
qed

text \<open>
  Claim C8, as amended. Let the library be loaded in a heap that is in order, with the
  locale created, and let the capture of some slot fail, so that the slot is null after
  \<^verbatim>\<open>capture_env_t\<close>: its variable is not set, or \<^verbatim>\<open>strdup\<close> had no memory for the copy
  (\<open>capture_fails\<close>). Then \<^verbatim>\<open>capture_env_t\<close> returns \<open>0\<close> and \<^verbatim>\<open>on_load\<close> leaves the armed
  flag clear. The slots stay as the capture left them: the slot of a variable that is not
  set is null, every slot that is not null, before or after a failing one, holds a copy of
  the value of its variable, and with memory for all the copies every slot whose variable
  is set holds one. \<^verbatim>\<open>on_unload\<close> then changes nothing: it calls \<^verbatim>\<open>release_env_t\<close> only
  when the flag is set, so the captured slots stay allocated and are not set to null.
  \<^verbatim>\<open>release_env_t\<close> itself, applied to these slots, frees every captured string and sets
  every slot to null.
\<close>

theorem partial_capture_stays:
  assumes "\<not> initialized s" and "newlocale os \<noteq> 0" and "heap_ok (mem s)"
    and "0 \<in> set (fst (capture_env_t (getenv os) names (mem s)))"
  shows "fst (snd (capture_env_t (getenv os) names (mem s))) = 0
         \<and> \<not> initialized (on_load os names s)
         \<and> initial_env (on_load os names s) = fst (capture_env_t (getenv os) names (mem s))
         \<and> length (initial_env (on_load os names s)) = length names
         \<and> (\<forall>i < length names.
               case getenv os (names ! i) of
                 None \<Rightarrow> initial_env (on_load os names s) ! i = 0
               | Some v \<Rightarrow>
                   (initial_env (on_load os names s) ! i \<noteq> 0 \<longrightarrow>
                      strs (mem (on_load os names s)) (initial_env (on_load os names s) ! i) = Some v)
                   \<and> (length names \<le> avail (mem s) \<longrightarrow> initial_env (on_load os names s) ! i \<noteq> 0))
         \<and> on_unload (on_load os names s) = Inr (on_load os names s)
         \<and> (\<exists>h'. release_env_t (mem (on_load os names s)) (initial_env (on_load os names s))
                    = Inr (replicate (length names) 0, h')
                \<and> (\<forall>p \<in> set (initial_env (on_load os names s)). p \<noteq> 0 \<longrightarrow> strs h' p = None))"
proof -
  obtain env st h' where c: "capture_loop (getenv os) names (mem s) 1 = (env, st, h')"
    by (cases "capture_loop (getenv os) names (mem s) 1") auto
  from capture_loop_props [OF assms(3) c] have p:
    "length env = length names"
    "list_all2 (\<lambda>name p. p \<noteq> 0 \<longrightarrow> brk (mem s) < p \<and> getenv os name \<noteq> None
        \<and> strs h' p = getenv os name) names env"
    "length names \<le> avail (mem s) \<longrightarrow>
       list_all2 (\<lambda>name p. getenv os name \<noteq> None \<longrightarrow> p \<noteq> 0) names env"
    "st = (if \<forall>p \<in> set env. p \<noteq> 0 then 1 else 0)"
    "distinct (filter (\<lambda>p. p \<noteq> 0) env)"
    by simp_all
  from assms(4) c have "0 \<in> set env" by (simp add: capture_env_t_def)
  then have "\<not> (\<forall>p \<in> set env. p \<noteq> 0)" by auto
  with p(4) have st: "st = 0" by simp
  define s1 where "s1 = s\<lparr>utf_locale := newlocale os, initial_env := env, mem := h'\<rparr>"
  have load: "on_load os names s = s1"
    using assms(1,2) c st
    by (simp add: on_load_def mt_safe_on_load_def capture_env_t_def s1_def)
  have ni: "\<not> initialized s1" using assms(1) by (simp add: s1_def)
  have slots: "\<forall>i < length names.
               case getenv os (names ! i) of
                 None \<Rightarrow> env ! i = 0
               | Some v \<Rightarrow> (env ! i \<noteq> 0 \<longrightarrow> strs h' (env ! i) = Some v)
                   \<and> (length names \<le> avail (mem s) \<longrightarrow> env ! i \<noteq> 0)"
  proof (intro allI impI)
    fix i assume i: "i < length names"
    have "length names \<le> avail (mem s) \<longrightarrow> getenv os (names ! i) \<noteq> None \<longrightarrow> env ! i \<noteq> 0"
    proof
      assume "length names \<le> avail (mem s)"
      with p(3) have "list_all2 (\<lambda>name p. getenv os name \<noteq> None \<longrightarrow> p \<noteq> 0) names env" by simp
      from list_all2_nthD [OF this i] show "getenv os (names ! i) \<noteq> None \<longrightarrow> env ! i \<noteq> 0" .
    qed
    with list_all2_nthD [OF p(2) i]
    show "case getenv os (names ! i) of
                 None \<Rightarrow> env ! i = 0
               | Some v \<Rightarrow> (env ! i \<noteq> 0 \<longrightarrow> strs h' (env ! i) = Some v)
                   \<and> (length names \<le> avail (mem s) \<longrightarrow> env ! i \<noteq> 0)"
      by (cases "getenv os (names ! i)") auto
  qed
  have valid: "\<forall>p \<in> set env. p \<noteq> 0 \<longrightarrow> strs h' p \<noteq> None"
  proof (intro ballI impI)
    fix q assume "q \<in> set env" and q0: "q \<noteq> 0"
    then obtain i where i: "i < length env" "env ! i = q" by (auto simp: in_set_conv_nth)
    from list_all2_nthD2 [OF p(2) i(1)] i(2) q0 show "strs h' q \<noteq> None" by auto
  qed
  from release_env_t_frees [OF valid p(5)] p(1) obtain h'' where
    rel: "release_env_t h' env = Inr (replicate (length names) 0, h'')"
    "\<forall>p \<in> set env. p \<noteq> 0 \<longrightarrow> strs h'' p = None" by auto
  have unl: "on_unload s1 = Inr s1"
    using ni by (simp add: on_unload_def initialized_False_id)
  have "fst (snd (capture_env_t (getenv os) names (mem s))) = 0"
    using c st by (simp add: capture_env_t_def)
  moreover have "length (initial_env s1) = length names" using p(1) by (simp add: s1_def)
  moreover have "initial_env s1 = env" "mem s1 = h'" by (simp_all add: s1_def)
  moreover have "fst (capture_env_t (getenv os) names (mem s)) = env"
    using c by (simp add: capture_env_t_def)
  ultimately show ?thesis
    unfolding load using ni slots unl rel by auto
qed

text \<open>
  The theorem for the names of the code when both variables are set and there is memory
  for one copy: \<^verbatim>\<open>strdup\<close> fails for \<^verbatim>\<open>LD_PRELOAD\<close>, the first slot holds the copy of the
  output directory at address \<open>1\<close>, the second slot is null, and unloading leaves the state
  as it is.
\<close>

theorem partial_capture_stays_witness:
  "\<not> initialized (unloaded 2 0 tight_heap) \<and> heap_ok (mem (unloaded 2 0 tight_heap))
   \<and> getenv both_set ENV_OUTPUT = Some ''/out''
   \<and> getenv both_set ''LD_PRELOAD'' = Some ''libear.so''
   \<and> avail (mem (unloaded 2 0 tight_heap)) = 1
   \<and> fst (capture_env_t (getenv both_set) env_names (mem (unloaded 2 0 tight_heap))) = [1, 0]
   \<and> \<not> initialized (on_load both_set env_names (unloaded 2 0 tight_heap))
   \<and> initial_env (on_load both_set env_names (unloaded 2 0 tight_heap)) = [1, 0]
   \<and> strs (mem (on_load both_set env_names (unloaded 2 0 tight_heap))) 1 = Some ''/out''
   \<and> on_unload (on_load both_set env_names (unloaded 2 0 tight_heap))
       = Inr (on_load both_set env_names (unloaded 2 0 tight_heap))"
proof -
  have a: "\<not> initialized (unloaded 2 0 tight_heap)" by (simp add: unloaded_def)
  have b: "newlocale both_set \<noteq> 0" by (simp add: both_set_def preload_only_def)
  have c: "heap_ok (mem (unloaded 2 0 tight_heap))"
    by (simp add: unloaded_def tight_heap_def empty_heap_def heap_ok_def)
  have g: "getenv both_set ENV_OUTPUT = Some ''/out''"
    "getenv both_set ''LD_PRELOAD'' = Some ''libear.so''"
    "avail (mem (unloaded 2 0 tight_heap)) = 1"
    by (simp_all add: both_set_def preload_only_def ENV_OUTPUT_def unloaded_def tight_heap_def
        empty_heap_def)
  have k: "fst (capture_env_t (getenv both_set) env_names (mem (unloaded 2 0 tight_heap))) = [1, 0]"
    by (simp add: eval_load both_set_def tight_heap_def)
  then have e: "0 \<in> set (fst (capture_env_t (getenv both_set) env_names (mem (unloaded 2 0 tight_heap))))"
    by simp
  have v: "strs (mem (on_load both_set env_names (unloaded 2 0 tight_heap))) 1 = Some ''/out''"
    by (simp add: eval_load both_set_def tight_heap_def numeral_2_eq_2)
  from partial_capture_stays [OF a b c e] a c g k v show ?thesis by simp
qed

text \<open>
  Claim C8 as stated has the captured slots freed and set to null at unload. For the names
  of the code when only \<^verbatim>\<open>LD_PRELOAD\<close> is set, the state after \<^verbatim>\<open>on_load\<close> and \<^verbatim>\<open>on_unload\<close>
  still has the second slot pointing to its copy, which is still allocated.
\<close>

theorem on_unload_keeps_counterexample:
  "(case on_unload (on_load preload_only env_names (unloaded 2 0 empty_heap)) of
      Inl e \<Rightarrow> False
    | Inr s \<Rightarrow> \<not> initialized s \<and> initial_env s = [0, 1]
        \<and> strs (mem s) 1 = Some ''libear.so'')"
  by (simp add: eval_load numeral_2_eq_2)

section \<open>Properties of the entry points when the library is not armed\<close>

subsection \<open>Reading, copying and releasing vectors\<close>

lemma reads_peek:
  assumes "arrs h p = Some (as @ 0 # rest)" and "0 \<notin> set as"
    and "map (strs h) as = map Some xs" and "p \<noteq> 0"
  shows "peek h p = Some xs"
proof -
  from assms(3) have l: "length xs = length as" by (metis length_map)
  have d: "\<forall>a \<in> set as. strs h a \<noteq> None"
  proof
    fix a assume "a \<in> set as"
    then obtain i where "i < length as" "as ! i = a" by (auto simp: in_set_conv_nth)
    with assms(3) l have "strs h a = Some (xs ! i)" by (metis nth_map)
    then show "strs h a \<noteq> None" by simp
  qed
  have "map (\<lambda>a. the (strs h a)) as = xs"
  proof (rule nth_equalityI)
    show "length (map (\<lambda>a. the (strs h a)) as) = length xs" using l by simp
    fix i assume "i < length (map (\<lambda>a. the (strs h a)) as)"
    then have i: "i < length as" by simp
    with assms(3) l have "strs h (as ! i) = Some (xs ! i)" by (metis nth_map)
    with i show "map (\<lambda>a. the (strs h a)) as ! i = xs ! i" by simp
  qed
  with assms(1,2,4) d show ?thesis by (simp add: peek_def takeWhile_layout')
qed

lemma owned_peek: "owned b h p as rest xs \<Longrightarrow> peek h p = Some xs"
  by (rule reads_peek [of h p as rest]) (auto simp: owned_def layout_def)

lemma peek_unchanged:
  assumes "heap_ok h" and "peek h p = Some xs" and "unchanged_upto (brk h) h h'"
  shows "peek h' p = Some xs"
proof -
  from peek_layout [OF assms(2)] obtain as rest where p0: "p \<noteq> 0"
    and arr: "arrs h p = Some (as @ 0 # rest)" and nz: "0 \<notin> set as"
    and m: "map (strs h) as = map Some xs" by blast
  from assms(1) arr have "p \<le> brk h" by (rule heap_ok_arr_le)
  with assms(3) arr have arr': "arrs h' p = Some (as @ 0 # rest)" by (simp add: unchanged_upto_def)
  from m have l: "length xs = length as" by (metis length_map)
  have "\<forall>a \<in> set as. strs h' a = strs h a"
  proof
    fix a assume "a \<in> set as"
    then obtain i where "i < length as" "as ! i = a" by (auto simp: in_set_conv_nth)
    with m l have "strs h a = Some (xs ! i)" by (metis nth_map)
    with assms(1) have "a \<le> brk h" by (rule heap_ok_str_le)
    with assms(3) show "strs h' a = strs h a" by (simp add: unchanged_upto_def)
  qed
  then have "map (strs h') as = map (strs h) as" by simp
  with m have "map (strs h') as = map Some xs" by simp
  from reads_peek [OF arr' nz this p0] show ?thesis .
qed

lemma argv_unchanged:
  assumes "heap_ok h" and "argv = 0 \<or> peek h argv \<noteq> None" and "unchanged_upto (brk h) h h'"
  shows "peek h' argv = peek h argv"
proof (cases "argv = 0")
  case True
  then show ?thesis by (simp add: peek_def)
next
  case False
  with assms(2) obtain xs where "peek h argv = Some xs" by auto
  with peek_unchanged [OF assms(1) this assms(3)] show ?thesis by simp
qed

lemma string_array_copy_peek:
  assumes ok: "heap_ok h" and v: "peek h inp = Some xs" and av: "length xs + 1 \<le> avail h"
  shows "\<exists>h' as. string_array_copy h inp = Inr (Suc (brk h), h')
           \<and> owned (brk h) h' (Suc (brk h)) as [] xs
           \<and> unchanged_upto (brk h) h h'"
proof -
  from peek_layout [OF v] obtain as rest where i0: "inp \<noteq> 0"
    and arr: "arrs h inp = Some (as @ 0 # rest)" and nz: "0 \<notin> set as"
    and m: "map (strs h) as = map Some xs" by blast
  from m have len: "length as = length xs" by (metis length_map)
  define q where "q = Suc (brk h)"
  define blk where "blk = replicate (length as + 1) (garbage h)"
  define h1 where "h1 = h\<lparr>arrs := (arrs h)(q \<mapsto> blk), brk := q, avail := avail h - 1\<rparr>"
  from ok arr have ib: "inp \<le> brk h" by (rule heap_ok_arr_le)
  then have iq: "inp \<noteq> q" by (simp add: q_def)
  have ok1: "heap_ok h1" using ok by (auto simp: heap_ok_def h1_def q_def)
  have m1: "map (strs h1) as = map Some xs" using m by (simp add: h1_def)
  have a1: "arrs h1 q = Some blk" by (simp add: h1_def)
  have l1: "length blk = 0 + length as + 1" by (simp add: blk_def)
  have av1: "length as \<le> avail h1" using av len by (simp add: h1_def)
  from copy_loop_layout [OF ok1 nz m1 a1 l1 av1, of rest] obtain h' as' where
    r: "copy_loop h1 q 0 (as @ 0 # rest) = Inr h'"
    and ar: "arrs h' q = Some (take 0 blk @ as' @ [0])"
    and p: "length as' = length as" "distinct as'" "0 \<notin> set as'" "\<forall>a \<in> set as'. brk h1 < a"
      "map (strs h') as' = map Some xs" "\<forall>a \<le> brk h1. strs h' a = strs h1 a"
      "\<forall>a. a \<noteq> q \<longrightarrow> arrs h' a = arrs h1 a" "heap_ok h'"
    by blast
  have q0: "0 < q" by (simp add: q_def)
  have run: "string_array_copy h inp = Inr (q, h')"
    using i0 arr av r iq q0 count_slots_layout [OF nz, of rest]
    by (simp add: string_array_copy_def string_array_length_def malloc_array_def
        h1_def blk_def q_def [symmetric])
  have b1: "brk h1 = q" by (simp add: h1_def)
  have lay': "layout h' q as' [] xs" using ar p(2,3,5) by (simp add: layout_def)
  have own: "owned (brk h) h' q as' [] xs"
    using p(8) lay' p(4) b1 by (auto simp: owned_def q_def)
  have unch: "unchanged_upto (brk h) h h'"
    using p(6,7) b1 by (auto simp: unchanged_upto_def h1_def q_def)
  show ?thesis using run own unch by (auto simp: q_def)
qed

lemma update_loop_disarmed:
  assumes "env = [] \<or> hd env = 0"
  shows "update_loop h q names env = Inr (q, h)"
proof (cases env)
  case Nil
  then show ?thesis by (cases names) simp_all
next
  case (Cons v vs)
  with assms have "v = 0" by simp
  with Cons show ?thesis by (cases names) simp_all
qed

lemma release_loop_frees:
  assumes "0 \<notin> set as" and "distinct as" and "\<forall>a \<in> set as. strs h a \<noteq> None"
  shows "\<exists>h'. release_loop h (as @ 0 # rest) = Inr h'
          \<and> (\<forall>a. a \<notin> set as \<longrightarrow> strs h' a = strs h a \<and> arrs h' a = arrs h a)
          \<and> brk h' = brk h \<and> (heap_ok h \<longrightarrow> heap_ok h')"
  using assms
proof (induction as arbitrary: h)
  case Nil
  then show ?case by simp
next
  case (Cons a as)
  define h1 where "h1 = h\<lparr>strs := (strs h)(a := None), arrs := (arrs h)(a := None)\<rparr>"
  from Cons.prems have a0: "a \<noteq> 0" and sa: "strs h a \<noteq> None" by auto
  then have f: "free h a = Inr h1" by (auto simp: free_def h1_def)
  have 1: "0 \<notin> set as" "distinct as" using Cons.prems by auto
  have 2: "\<forall>b \<in> set as. strs h1 b \<noteq> None" using Cons.prems by (auto simp: h1_def)
  from Cons.IH [OF 1 2] obtain h' where
    r: "release_loop h1 (as @ 0 # rest) = Inr h'"
    and k: "\<forall>b. b \<notin> set as \<longrightarrow> strs h' b = strs h1 b \<and> arrs h' b = arrs h1 b"
    and b: "brk h' = brk h1" and o: "heap_ok h1 \<longrightarrow> heap_ok h'" by blast
  have "heap_ok h \<longrightarrow> heap_ok h1" by (auto simp: heap_ok_def h1_def)
  with a0 f r k b o show ?case by (auto simp: h1_def)
qed

lemma string_array_release_owned:
  assumes "owned b h q as rest xs"
  shows "\<exists>h'. string_array_release h q = Inr h'
          \<and> (\<forall>a. a \<notin> set as \<and> a \<noteq> q \<longrightarrow> strs h' a = strs h a \<and> arrs h' a = arrs h a)
          \<and> brk h' = brk h \<and> heap_ok h'"
proof -
  from assms have ok: "heap_ok h" and bq: "b < q" and lay: "layout h q as rest xs"
    by (simp_all add: owned_def)
  then have arr: "arrs h q = Some (as @ 0 # rest)" and nz: "0 \<notin> set as" and d: "distinct as"
    by (simp_all add: layout_def)
  have v: "\<forall>a \<in> set as. strs h a \<noteq> None"
    using layout_entries_le(2) [OF ok lay] by blast
  from release_loop_frees [OF nz d v, of rest] ok obtain h1 where
    r: "release_loop h (as @ 0 # rest) = Inr h1"
    and k: "\<forall>a. a \<notin> set as \<longrightarrow> strs h1 a = strs h a \<and> arrs h1 a = arrs h a"
    and b1: "brk h1 = brk h" and ok1: "heap_ok h1" by blast
  have qn: "q \<notin> set as" using layout_entries_le(4) [OF ok lay] by blast
  with k arr have aq: "arrs h1 q = Some (as @ 0 # rest)" by simp
  define h' where "h' = h1\<lparr>strs := (strs h1)(q := None), arrs := (arrs h1)(q := None)\<rparr>"
  from bq have q0: "q \<noteq> 0" by simp
  have f: "free h1 q = Inr h'" using q0 aq by (simp add: free_def h'_def)
  have "string_array_release h q = Inr h'"
    using q0 arr r f by (simp add: string_array_release_def)
  moreover have "heap_ok h'" using ok1 by (auto simp: heap_ok_def h'_def)
  ultimately show ?thesis using k b1 by (auto simp: h'_def)
qed

subsection \<open>The vector of the variadic arguments\<close>

lemma realloc_grow:
  assumes ok: "heap_ok h" and b: "b \<le> brk h"
    and res: "result = 0 \<and> cs = [] \<or> b < result \<and> arrs h result = Some cs"
    and av: "0 < avail h"
  shows "\<exists>r1 h1. realloc h result (length cs + 1) = Inr (r1, h1) \<and> b < r1
          \<and> arrs h1 r1 = Some (cs @ [garbage h]) \<and> strs h1 = strs h \<and> heap_ok h1
          \<and> brk h \<le> brk h1 \<and> avail h1 = avail h - 1
          \<and> (\<forall>a \<le> b. arrs h1 a = arrs h a)"
proof (cases "result = 0")
  case True
  with res have cs: "cs = []" by auto
  define h1 where "h1 = h\<lparr>arrs := (arrs h)(Suc (brk h) \<mapsto> [garbage h]),
      brk := Suc (brk h), avail := avail h - 1\<rparr>"
  have r: "realloc h result (length cs + 1) = Inr (Suc (brk h), h1)"
    using True cs av by (simp add: realloc_def malloc_array_def h1_def)
  have "heap_ok h1" using ok by (auto simp: heap_ok_def h1_def)
  with r b cs show ?thesis by (auto simp: h1_def)
next
  case False
  with res have br: "b < result" and arr: "arrs h result = Some cs" by auto
  have sl: "take (length cs + 1) cs @ replicate (length cs + 1 - length cs) (garbage h)
      = cs @ [garbage h]" by simp
  show ?thesis
  proof (cases "moves h")
    case True
    define h1 where "h1 = h\<lparr>arrs := ((arrs h)(result := None))(Suc (brk h) \<mapsto> cs @ [garbage h]),
      brk := Suc (brk h), avail := avail h - 1\<rparr>"
    have r: "realloc h result (length cs + 1) = Inr (Suc (brk h), h1)"
      using False arr av True unfolding realloc_def h1_def Let_def sl by simp
    have "heap_ok h1" using ok by (auto simp: heap_ok_def h1_def)
    with r b br show ?thesis by (auto simp: h1_def)
  next
    case nm: False
    define h1 where "h1 = h\<lparr>arrs := (arrs h)(result \<mapsto> cs @ [garbage h]), avail := avail h - 1\<rparr>"
    have r: "realloc h result (length cs + 1) = Inr (result, h1)"
      using False arr av nm unfolding realloc_def h1_def Let_def sl by simp
    from ok arr have "strs h result = None" by (auto simp: heap_ok_def)
    moreover from ok arr have "result \<le> brk h" by (rule heap_ok_arr_le)
    ultimately have "heap_ok h1" using ok by (auto simp: heap_ok_def h1_def)
    with r b br show ?thesis by (auto simp: h1_def)
  qed
qed

lemma varargs_loop_copies:
  assumes "heap_ok h" and "b \<le> brk h"
    and "result = 0 \<and> cs = [] \<or> b < result \<and> arrs h result = Some cs"
    and "distinct cs" and "0 \<notin> set cs" and "\<forall>a \<in> set cs. b < a"
    and "map (strs h) cs = map Some ds"
    and "0 \<notin> set as" and "\<forall>a \<in> set as. a \<le> b" and "map (strs h) as = map Some xs"
    and "2 * length as \<le> avail h"
  shows "\<exists>h' result' cs'.
           varargs_loop h result (length cs) (as @ 0 # rest) = Inr (result', length cs', h', rest)
           \<and> (result' = 0 \<and> cs' = [] \<or> b < result' \<and> arrs h' result' = Some cs')
           \<and> distinct cs' \<and> 0 \<notin> set cs' \<and> (\<forall>a \<in> set cs'. b < a)
           \<and> map (strs h') cs' = map Some (ds @ xs)
           \<and> heap_ok h' \<and> b \<le> brk h' \<and> unchanged_upto b h h'
           \<and> avail h' = avail h - 2 * length as"
  using assms
proof (induction as arbitrary: h result cs ds xs)
  case Nil
  then show ?case by (auto simp: unchanged_upto_def)
next
  case (Cons a as)
  from Cons.prems(10) obtain x xs' where xs: "xs = x # xs'" and sa: "strs h a = Some x"
    and m': "map (strs h) as = map Some xs'" by (cases xs) auto
  from Cons.prems have a0: "a \<noteq> 0" and ab: "a \<le> b" and av: "0 < avail h" by auto
  from realloc_grow [OF Cons.prems(1,2,3) av] obtain r1 h1 where
    r: "realloc h result (length cs + 1) = Inr (r1, h1)" and br1: "b < r1"
    and a1: "arrs h1 r1 = Some (cs @ [garbage h])" and s1: "strs h1 = strs h"
    and ok1: "heap_ok h1" and bk1: "brk h \<le> brk h1" and av1: "avail h1 = avail h - 1"
    and f1: "\<forall>a \<le> b. arrs h1 a = arrs h a" by blast
  define c where "c = Suc (brk h1)"
  define h2 where "h2 = h1\<lparr>strs := (strs h1)(c \<mapsto> x), brk := c, avail := avail h1 - 1\<rparr>"
  define h3 where "h3 = h2\<lparr>arrs := (arrs h2)(r1 \<mapsto> cs @ [c])\<rparr>"
  have av1': "avail h1 \<noteq> 0" using av1 Cons.prems(11) by simp
  have sd: "strdup h1 x = (c, h2)" using av1' by (simp add: strdup_def c_def h2_def)
  have st: "store_slot h2 r1 (length cs) c = Inr h3"
    using a1 by (simp add: store_slot_def h2_def h3_def)
  have r10: "r1 \<noteq> 0" using br1 by simp
  have c0: "c \<noteq> 0" by (simp add: c_def)
  have step: "varargs_loop h result (length cs) ((a # as) @ 0 # rest)
      = varargs_loop h3 r1 (length (cs @ [c])) (as @ 0 # rest)"
    using a0 r r10 sa s1 sd c0 st by simp
  from ok1 a1 have r1le: "r1 \<le> brk h1" by (rule heap_ok_arr_le)
  have csle: "\<forall>e \<in> set cs. e \<le> brk h1"
  proof
    fix e assume "e \<in> set cs"
    then obtain i where "i < length cs" "cs ! i = e" by (auto simp: in_set_conv_nth)
    moreover from Cons.prems(7) have "length ds = length cs" by (metis length_map)
    ultimately have "strs h e = Some (ds ! i)" using Cons.prems(7) by (metis nth_map)
    with s1 have "strs h1 e = Some (ds ! i)" by simp
    with ok1 show "e \<le> brk h1" by (rule heap_ok_str_le)
  qed
  then have cn: "c \<notin> set cs" by (auto simp: c_def)
  have bc: "b < c" using Cons.prems(2) bk1 by (simp add: c_def)
  have ok3: "heap_ok h3"
  proof -
    from ok1 a1 have "strs h1 r1 = None" by (auto simp: heap_ok_def)
    moreover have "arrs h1 c = None" using ok1 by (auto simp: heap_ok_def c_def)
    moreover have "r1 \<noteq> c" using r1le by (simp add: c_def)
    ultimately show ?thesis using ok1 r1le by (auto simp: heap_ok_def h3_def h2_def c_def)
  qed
  have p2: "b \<le> brk h3" using bc by (simp add: h3_def h2_def)
  have p3: "r1 = 0 \<and> cs @ [c] = [] \<or> b < r1 \<and> arrs h3 r1 = Some (cs @ [c])"
    using br1 by (simp add: h3_def)
  have p4: "distinct (cs @ [c])" using Cons.prems(4) cn by simp
  have p5: "0 \<notin> set (cs @ [c])" using Cons.prems(5) c0 by simp
  have p6: "\<forall>e \<in> set (cs @ [c]). b < e" using Cons.prems(6) bc by simp
  have "map (strs h3) cs = map (strs h) cs" using cn s1 by (auto simp: h3_def h2_def)
  then have p7: "map (strs h3) (cs @ [c]) = map Some (ds @ [x])"
    using Cons.prems(7) by (simp add: h3_def h2_def)
  have p8: "0 \<notin> set as" and p9: "\<forall>e \<in> set as. e \<le> b" using Cons.prems by auto
  have "map (strs h3) as = map (strs h) as" using p9 bc s1 by (auto simp: h3_def h2_def)
  with m' have p10: "map (strs h3) as = map Some xs'" by simp
  have p11: "2 * length as \<le> avail h3" using Cons.prems(11) av1 by (simp add: h3_def h2_def)
  from Cons.IH [OF ok3 p2 p3 p4 p5 p6 p7 p8 p9 p10 p11] obtain h' result' cs' where
    run: "varargs_loop h3 r1 (length (cs @ [c])) (as @ 0 # rest)
            = Inr (result', length cs', h', rest)"
    and q: "result' = 0 \<and> cs' = [] \<or> b < result' \<and> arrs h' result' = Some cs'"
      "distinct cs'" "0 \<notin> set cs'" "\<forall>a \<in> set cs'. b < a"
      "map (strs h') cs' = map Some ((ds @ [x]) @ xs')" "heap_ok h'" "b \<le> brk h'"
    and u: "unchanged_upto b h3 h'" and av': "avail h' = avail h3 - 2 * length as" by blast
  have u0: "unchanged_upto b h h3"
    using f1 s1 bc br1 by (auto simp: unchanged_upto_def h3_def h2_def)
  have u': "unchanged_upto b h h'" using u0 u by (auto simp: unchanged_upto_def)
  have "avail h' = avail h - 2 * length (a # as)" using av' av1 by (simp add: h3_def h2_def)
  with step run q u' xs show ?case by auto
qed

lemma va_view_split:
  assumes "va_view h args = Some xs"
  shows "\<exists>as rest. args = as @ 0 # rest \<and> 0 \<notin> set as \<and> map (strs h) as = map Some xs
          \<and> va_next args = (case rest of [] \<Rightarrow> 0 | e # _ \<Rightarrow> e) \<and> length as \<le> length args"
proof -
  from assms have z: "0 \<in> set args"
    and d: "\<forall>a \<in> set (takeWhile (\<lambda>a. a \<noteq> 0) args). strs h a \<noteq> None"
    and x: "xs = map (\<lambda>a. the (strs h a)) (takeWhile (\<lambda>a. a \<noteq> 0) args)"
    by (auto simp: va_view_def split: if_splits)
  define as where "as = takeWhile (\<lambda>a. a \<noteq> 0) args"
  from split_at_null [OF z] obtain rest where a: "args = as @ 0 # rest"
    unfolding as_def by blast
  have nz: "0 \<notin> set as" unfolding as_def by (auto dest: set_takeWhileD)
  have tw: "takeWhile (\<lambda>a. a \<noteq> 0) args = as" by (simp add: as_def)
  have dw: "dropWhile (\<lambda>a. a \<noteq> 0) args = 0 # rest"
  proof -
    have "\<And>x. x \<in> set as \<Longrightarrow> x \<noteq> 0" using nz by metis
    then have "dropWhile (\<lambda>a. a \<noteq> 0) (as @ 0 # rest) = dropWhile (\<lambda>a. a \<noteq> 0) (0 # rest)"
      by (rule dropWhile_append2)
    then show ?thesis using a by simp
  qed
  have "map (strs h) as = map Some xs" using d x unfolding tw by auto
  moreover have "va_next args = (case rest of [] \<Rightarrow> 0 | e # _ \<Rightarrow> e)"
    unfolding va_next_def dw by (simp split: list.splits)
  moreover have "length as \<le> length args" unfolding a by simp
  ultimately show ?thesis using a nz by blast
qed

lemma string_array_from_varargs_owned:
  assumes ok: "heap_ok h" and v: "va_view h args = Some xs"
    and av: "2 * length args + 1 + n \<le> avail h"
  shows "\<exists>argv h1 cs rest. string_array_from_varargs h args = Inr (argv, h1, rest)
           \<and> owned (brk h) h1 argv cs [] xs \<and> unchanged_upto (brk h) h h1
           \<and> argv \<le> brk h1 \<and> (\<forall>a \<in> set cs. a \<le> brk h1) \<and> n \<le> avail h1
           \<and> va_next args = (case rest of [] \<Rightarrow> 0 | e # _ \<Rightarrow> e)"
proof -
  from va_view_split [OF v] obtain as rest where a: "args = as @ 0 # rest"
    and nz: "0 \<notin> set as" and m: "map (strs h) as = map Some xs"
    and nx: "va_next args = (case rest of [] \<Rightarrow> 0 | e # _ \<Rightarrow> e)"
    and la: "length as \<le> length args" by blast
  from m have lx: "length xs = length as" by (metis length_map)
  have le: "\<forall>e \<in> set as. e \<le> brk h"
  proof
    fix e assume "e \<in> set as"
    then obtain i where "i < length as" "as ! i = e" by (auto simp: in_set_conv_nth)
    with m lx have "strs h e = Some (xs ! i)" by (metis nth_map)
    with ok show "e \<le> brk h" by (rule heap_ok_str_le)
  qed
  have av0: "2 * length as \<le> avail h" using av la by simp
  have e0: "(0::nat) = 0 \<and> ([]::addr list) = [] \<or> brk h < 0 \<and> arrs h 0 = Some []" by simp
  from varargs_loop_copies [of h "brk h" 0 "[]" "[]" as xs rest, OF ok _ e0 _ _ _ _ nz le m av0]
  obtain h' result' cs' where
    run: "varargs_loop h 0 0 (as @ 0 # rest) = Inr (result', length cs', h', rest)"
    and q: "result' = 0 \<and> cs' = [] \<or> brk h < result' \<and> arrs h' result' = Some cs'"
      "distinct cs'" "0 \<notin> set cs'" "\<forall>a \<in> set cs'. brk h < a"
      "map (strs h') cs' = map Some xs" "heap_ok h'" "brk h \<le> brk h'"
    and u: "unchanged_upto (brk h) h h'" and av': "avail h' = avail h - 2 * length as"
    by auto
  have avp: "0 < avail h'" using av' av la by simp
  from realloc_grow [OF q(6,7,1) avp] obtain r1 h1 where
    r: "realloc h' result' (length cs' + 1) = Inr (r1, h1)" and br1: "brk h < r1"
    and a1: "arrs h1 r1 = Some (cs' @ [garbage h'])" and s1: "strs h1 = strs h'"
    and ok1: "heap_ok h1" and bk1: "brk h' \<le> brk h1" and av1: "avail h1 = avail h' - 1"
    and f1: "\<forall>a \<le> brk h. arrs h1 a = arrs h' a" by blast
  define h3 where "h3 = h1\<lparr>arrs := (arrs h1)(r1 \<mapsto> cs' @ [0])\<rparr>"
  have st: "store_slot h1 r1 (length cs') 0 = Inr h3"
    using a1 by (simp add: store_slot_def h3_def)
  have r10: "r1 \<noteq> 0" using br1 by simp
  have res: "string_array_from_varargs h args = Inr (r1, h3, rest)"
    using run r r10 st unfolding a by (simp add: string_array_from_varargs_def)
  from ok1 a1 have r1le: "r1 \<le> brk h1" by (rule heap_ok_arr_le)
  from ok1 a1 have "strs h1 r1 = None" by (auto simp: heap_ok_def)
  then have ok3: "heap_ok h3" using ok1 r1le by (auto simp: heap_ok_def h3_def)
  have lay: "layout h3 r1 cs' [] xs" using q(2,3,5) s1 by (simp add: layout_def h3_def)
  have own: "owned (brk h) h3 r1 cs' [] xs" using ok3 br1 q(4) lay by (simp add: owned_def)
  have un: "unchanged_upto (brk h) h h3"
    using u f1 s1 br1 by (auto simp: unchanged_upto_def h3_def)
  have csle: "\<forall>a \<in> set cs'. a \<le> brk h3"
    using layout_entries_le(1) [OF ok3 lay] by simp
  have "n \<le> avail h3" using av av' av1 la by (simp add: h3_def)
  with res own un r1le csle nx show ?thesis by (auto simp: h3_def)
qed

lemma owned_frame:
  assumes "owned b h p as rest xs" and "heap_ok h'" and "unchanged_upto c h h'"
    and "p \<le> c" and "\<forall>a \<in> set as. a \<le> c"
  shows "owned b h' p as rest xs"
proof -
  from assms(3,5) have "map (strs h') as = map (strs h) as"
    by (auto simp: unchanged_upto_def)
  with assms show ?thesis by (auto simp: owned_def layout_def unchanged_upto_def)
qed

lemma forward_disarmed:
  assumes ok: "heap_ok h" and dis: "env = [] \<or> hd env = 0"
    and v: "peek h envp = Some es" and av: "length es + 1 \<le> avail h"
  shows "\<exists>menvp h1 h2. string_array_partial_update names h envp env = Inr (menvp, h1)
           \<and> peek h1 menvp = Some es \<and> unchanged_upto (brk h) h h1
           \<and> string_array_release h1 menvp = Inr h2 \<and> heap_ok h2
           \<and> unchanged_upto (brk h) h h2"
proof -
  from string_array_copy_peek [OF ok v av] obtain h1 as where
    c: "string_array_copy h envp = Inr (Suc (brk h), h1)"
    and o: "owned (brk h) h1 (Suc (brk h)) as [] es"
    and u: "unchanged_upto (brk h) h h1" by blast
  have r: "string_array_partial_update names h envp env = Inr (Suc (brk h), h1)"
    using c update_loop_disarmed [OF dis] by (simp add: string_array_partial_update_def)
  from string_array_release_owned [OF o] obtain h2 where
    rel: "string_array_release h1 (Suc (brk h)) = Inr h2"
    and k: "\<forall>a. a \<notin> set as \<and> a \<noteq> Suc (brk h) \<longrightarrow> strs h2 a = strs h1 a \<and> arrs h2 a = arrs h1 a"
    and ok2: "heap_ok h2" by blast
  from o have "\<forall>a \<in> set as. brk h < a" by (simp add: owned_def)
  then have "\<forall>a \<le> brk h. a \<notin> set as \<and> a \<noteq> Suc (brk h)" by auto
  with k u have "unchanged_upto (brk h) h h2" by (simp add: unchanged_upto_def)
  with r owned_peek [OF o] u rel ok2 show ?thesis by blast
qed

subsection \<open>The forwarding functions\<close>

lemma call_execve_disarmed:
  assumes "heap_ok (mem s)" and "initial_env s = [] \<or> hd (initial_env s) = 0"
    and "peek (mem s) envp = Some es" and "length es + 1 \<le> avail (mem s)"
    and "argv = 0 \<or> peek (mem s) argv \<noteq> None" and "dl_execve lc = Some fp"
  shows "\<exists>h2. call_execve lc names s path argv envp
             = Inr (fp path (peek (mem s) argv) (Some es), s\<lparr>mem := h2\<rparr>)
           \<and> heap_ok h2 \<and> unchanged_upto (brk (mem s)) (mem s) h2"
proof -
  from forward_disarmed [OF assms(1-4), of names] obtain menvp h1 h2 where
    f: "string_array_partial_update names (mem s) envp (initial_env s) = Inr (menvp, h1)"
      "peek h1 menvp = Some es" "string_array_release h1 menvp = Inr h2"
      "heap_ok h2" "unchanged_upto (brk (mem s)) (mem s) h2"
    and u: "unchanged_upto (brk (mem s)) (mem s) h1" by blast
  from argv_unchanged [OF assms(1,5) u] f(1-3) assms(6) have "call_execve lc names s path argv envp
             = Inr (fp path (peek (mem s) argv) (Some es), s\<lparr>mem := h2\<rparr>)"
    by (simp add: call_execve_def)
  with f(4,5) show ?thesis by blast
qed

lemma call_execvpe_disarmed:
  assumes "heap_ok (mem s)" and "initial_env s = [] \<or> hd (initial_env s) = 0"
    and "peek (mem s) envp = Some es" and "length es + 1 \<le> avail (mem s)"
    and "argv = 0 \<or> peek (mem s) argv \<noteq> None" and "dl_execvpe lc = Some fp"
  shows "\<exists>h2. call_execvpe lc names s file argv envp
             = Inr (fp file (peek (mem s) argv) (Some es), s\<lparr>mem := h2\<rparr>)
           \<and> heap_ok h2 \<and> unchanged_upto (brk (mem s)) (mem s) h2"
proof -
  from forward_disarmed [OF assms(1-4), of names] obtain menvp h1 h2 where
    f: "string_array_partial_update names (mem s) envp (initial_env s) = Inr (menvp, h1)"
      "peek h1 menvp = Some es" "string_array_release h1 menvp = Inr h2"
      "heap_ok h2" "unchanged_upto (brk (mem s)) (mem s) h2"
    and u: "unchanged_upto (brk (mem s)) (mem s) h1" by blast
  from argv_unchanged [OF assms(1,5) u] f(1-3) assms(6) have "call_execvpe lc names s file argv envp
             = Inr (fp file (peek (mem s) argv) (Some es), s\<lparr>mem := h2\<rparr>)"
    by (simp add: call_execvpe_def)
  with f(4,5) show ?thesis by blast
qed

lemma call_exect_disarmed:
  assumes "heap_ok (mem s)" and "initial_env s = [] \<or> hd (initial_env s) = 0"
    and "peek (mem s) envp = Some es" and "length es + 1 \<le> avail (mem s)"
    and "argv = 0 \<or> peek (mem s) argv \<noteq> None" and "dl_exect lc = Some fp"
  shows "\<exists>h2. call_exect lc names s path argv envp
             = Inr (fp path (peek (mem s) argv) (Some es), s\<lparr>mem := h2\<rparr>)
           \<and> heap_ok h2 \<and> unchanged_upto (brk (mem s)) (mem s) h2"
proof -
  from forward_disarmed [OF assms(1-4), of names] obtain menvp h1 h2 where
    f: "string_array_partial_update names (mem s) envp (initial_env s) = Inr (menvp, h1)"
      "peek h1 menvp = Some es" "string_array_release h1 menvp = Inr h2"
      "heap_ok h2" "unchanged_upto (brk (mem s)) (mem s) h2"
    and u: "unchanged_upto (brk (mem s)) (mem s) h1" by blast
  from argv_unchanged [OF assms(1,5) u] f(1-3) assms(6) have "call_exect lc names s path argv envp
             = Inr (fp path (peek (mem s) argv) (Some es), s\<lparr>mem := h2\<rparr>)"
    by (simp add: call_exect_def)
  with f(4,5) show ?thesis by blast
qed

lemma call_posix_spawn_disarmed:
  assumes "heap_ok (mem s)" and "initial_env s = [] \<or> hd (initial_env s) = 0"
    and "peek (mem s) envp = Some es" and "length es + 1 \<le> avail (mem s)"
    and "argv = 0 \<or> peek (mem s) argv \<noteq> None" and "dl_posix_spawn lc = Some fp"
  shows "\<exists>h2. call_posix_spawn lc names s pid path file_actions attrp argv envp
             = Inr (fp pid path file_actions attrp (peek (mem s) argv) (Some es), s\<lparr>mem := h2\<rparr>)
           \<and> heap_ok h2 \<and> unchanged_upto (brk (mem s)) (mem s) h2"
proof -
  from forward_disarmed [OF assms(1-4), of names] obtain menvp h1 h2 where
    f: "string_array_partial_update names (mem s) envp (initial_env s) = Inr (menvp, h1)"
      "peek h1 menvp = Some es" "string_array_release h1 menvp = Inr h2"
      "heap_ok h2" "unchanged_upto (brk (mem s)) (mem s) h2"
    and u: "unchanged_upto (brk (mem s)) (mem s) h1" by blast
  from argv_unchanged [OF assms(1,5) u] f(1-3) assms(6) have "call_posix_spawn lc names s pid path file_actions attrp argv envp
             = Inr (fp pid path file_actions attrp (peek (mem s) argv) (Some es), s\<lparr>mem := h2\<rparr>)"
    by (simp add: call_posix_spawn_def)
  with f(4,5) show ?thesis by blast
qed

lemma call_posix_spawnp_disarmed:
  assumes "heap_ok (mem s)" and "initial_env s = [] \<or> hd (initial_env s) = 0"
    and "peek (mem s) envp = Some es" and "length es + 1 \<le> avail (mem s)"
    and "argv = 0 \<or> peek (mem s) argv \<noteq> None" and "dl_posix_spawnp lc = Some fp"
  shows "\<exists>h2. call_posix_spawnp lc names s pid file file_actions attrp argv envp
             = Inr (fp pid file file_actions attrp (peek (mem s) argv) (Some es), s\<lparr>mem := h2\<rparr>)
           \<and> heap_ok h2 \<and> unchanged_upto (brk (mem s)) (mem s) h2"
proof -
  from forward_disarmed [OF assms(1-4), of names] obtain menvp h1 h2 where
    f: "string_array_partial_update names (mem s) envp (initial_env s) = Inr (menvp, h1)"
      "peek h1 menvp = Some es" "string_array_release h1 menvp = Inr h2"
      "heap_ok h2" "unchanged_upto (brk (mem s)) (mem s) h2"
    and u: "unchanged_upto (brk (mem s)) (mem s) h1" by blast
  from argv_unchanged [OF assms(1,5) u] f(1-3) assms(6) have "call_posix_spawnp lc names s pid file file_actions attrp argv envp
             = Inr (fp pid file file_actions attrp (peek (mem s) argv) (Some es), s\<lparr>mem := h2\<rparr>)"
    by (simp add: call_posix_spawnp_def)
  with f(4,5) show ?thesis by blast
qed

lemma restore_environ: "s\<lparr>environ := m, mem := h1, environ := environ s, mem := h2\<rparr> = s\<lparr>mem := h2\<rparr>"
  by (cases s) simp

lemma call_execvp_disarmed:
  assumes "heap_ok (mem s)" and "initial_env s = [] \<or> hd (initial_env s) = 0"
    and "peek (mem s) (environ s) = Some es" and "length es + 1 \<le> avail (mem s)"
    and "argv = 0 \<or> peek (mem s) argv \<noteq> None" and "dl_execvp lc = Some fp"
  shows "\<exists>h2. call_execvp lc names s file argv
             = Inr (fp file (peek (mem s) argv) (Some es), s\<lparr>mem := h2\<rparr>)
           \<and> heap_ok h2 \<and> unchanged_upto (brk (mem s)) (mem s) h2"
proof -
  from forward_disarmed [OF assms(1-4), of names] obtain menvp h1 h2 where
    f: "string_array_partial_update names (mem s) (environ s) (initial_env s) = Inr (menvp, h1)"
      "peek h1 menvp = Some es" "string_array_release h1 menvp = Inr h2"
      "heap_ok h2" "unchanged_upto (brk (mem s)) (mem s) h2"
    and u: "unchanged_upto (brk (mem s)) (mem s) h1" by blast
  from argv_unchanged [OF assms(1,5) u] f(1-3) assms(6) have "call_execvp lc names s file argv
             = Inr (fp file (peek (mem s) argv) (Some es), s\<lparr>mem := h2\<rparr>)"
    by (simp add: call_execvp_def Let_def restore_environ)
  with f(4,5) show ?thesis by blast
qed

lemma call_execvP_disarmed:
  assumes "heap_ok (mem s)" and "initial_env s = [] \<or> hd (initial_env s) = 0"
    and "peek (mem s) (environ s) = Some es" and "length es + 1 \<le> avail (mem s)"
    and "argv = 0 \<or> peek (mem s) argv \<noteq> None" and "dl_execvP lc = Some fp"
  shows "\<exists>h2. call_execvP lc names s file search_path argv
             = Inr (fp file search_path (peek (mem s) argv) (Some es), s\<lparr>mem := h2\<rparr>)
           \<and> heap_ok h2 \<and> unchanged_upto (brk (mem s)) (mem s) h2"
proof -
  from forward_disarmed [OF assms(1-4), of names] obtain menvp h1 h2 where
    f: "string_array_partial_update names (mem s) (environ s) (initial_env s) = Inr (menvp, h1)"
      "peek h1 menvp = Some es" "string_array_release h1 menvp = Inr h2"
      "heap_ok h2" "unchanged_upto (brk (mem s)) (mem s) h2"
    and u: "unchanged_upto (brk (mem s)) (mem s) h1" by blast
  from argv_unchanged [OF assms(1,5) u] f(1-3) assms(6) have "call_execvP lc names s file search_path argv
             = Inr (fp file search_path (peek (mem s) argv) (Some es), s\<lparr>mem := h2\<rparr>)"
    by (simp add: call_execvP_def Let_def restore_environ)
  with f(4,5) show ?thesis by blast
qed

lemma varargs_frame:
  assumes ok: "heap_ok h" and v: "va_view h args = Some xs" and e: "peek h envp = Some es"
    and av: "2 * length args + 1 + (length es + 1) \<le> avail h"
  shows "\<exists>argv h1 rest. string_array_from_varargs h args = Inr (argv, h1, rest)
           \<and> heap_ok h1 \<and> peek h1 argv = Some xs \<and> peek h1 envp = Some es
           \<and> length es + 1 \<le> avail h1
           \<and> va_next args = (case rest of [] \<Rightarrow> 0 | e # _ \<Rightarrow> e)
           \<and> (\<forall>h2. heap_ok h2 \<and> unchanged_upto (brk h1) h1 h2 \<longrightarrow>
                 (\<exists>h3. string_array_release h2 argv = Inr h3 \<and> unchanged_upto (brk h) h h3))"
proof -
  from string_array_from_varargs_owned [OF ok v av] obtain argv h1 cs rest where
    r: "string_array_from_varargs h args = Inr (argv, h1, rest)"
    and o: "owned (brk h) h1 argv cs [] xs" and u: "unchanged_upto (brk h) h h1"
    and le: "argv \<le> brk h1" "\<forall>a \<in> set cs. a \<le> brk h1" and av1: "length es + 1 \<le> avail h1"
    and nx: "va_next args = (case rest of [] \<Rightarrow> 0 | e # _ \<Rightarrow> e)" by blast
  from o have ok1: "heap_ok h1" and b: "brk h < argv" "\<forall>a \<in> set cs. brk h < a"
    by (simp_all add: owned_def)
  have rel: "\<exists>h3. string_array_release h2 argv = Inr h3 \<and> unchanged_upto (brk h) h h3"
    if h2: "heap_ok h2" "unchanged_upto (brk h1) h1 h2" for h2
  proof -
    from owned_frame [OF o h2 le] have "owned (brk h) h2 argv cs [] xs" .
    from string_array_release_owned [OF this] obtain h3 where
      r3: "string_array_release h2 argv = Inr h3"
      and k: "\<forall>a. a \<notin> set cs \<and> a \<noteq> argv \<longrightarrow> strs h3 a = strs h2 a \<and> arrs h3 a = arrs h2 a"
      by blast
    have "unchanged_upto (brk h) h h3" unfolding unchanged_upto_def
    proof (intro allI impI)
      fix a assume a: "a \<le> brk h"
      with b have "a \<notin> set cs \<and> a \<noteq> argv" by auto
      with k have "strs h3 a = strs h2 a \<and> arrs h3 a = arrs h2 a" by simp
      moreover from a b(1) le(1) have "a \<le> brk h1" by simp
      with h2(2) have "strs h2 a = strs h1 a \<and> arrs h2 a = arrs h1 a"
        by (simp add: unchanged_upto_def)
      moreover from u a have "strs h1 a = strs h a \<and> arrs h1 a = arrs h a"
        by (simp add: unchanged_upto_def)
      ultimately show "strs h3 a = strs h a \<and> arrs h3 a = arrs h a" by simp
    qed
    with r3 show ?thesis by blast
  qed
  from r ok1 owned_peek [OF o] peek_unchanged [OF ok e u] av1 nx rel show ?thesis by blast
qed

lemma report_call_disarmed: "\<not> initialized s \<Longrightarrow> report_call os s argv = Inr s"
  by (simp add: report_call_def)

subsection \<open>The state after a load without the output directory\<close>

lemma capture_loop_first_unset:
  assumes "genv name = None" and "capture_loop genv (name # names) h st = (env, st', h')"
  shows "hd env = 0 \<and> env \<noteq> []"
  using assms by (auto split: prod.splits)

lemma on_load_output_unset:
  assumes "heap_ok h" and "getenv os name = None"
  shows "\<not> initialized (on_load os (name # names) (unloaded n env h))
       \<and> (initial_env (on_load os (name # names) (unloaded n env h)) = []
          \<or> hd (initial_env (on_load os (name # names) (unloaded n env h))) = 0)
       \<and> heap_ok (mem (on_load os (name # names) (unloaded n env h)))
       \<and> files (on_load os (name # names) (unloaded n env h)) = []
       \<and> environ (on_load os (name # names) (unloaded n env h)) = env"
proof (cases "newlocale os = 0")
  case True
  have "replicate n (0::nat) = [] \<or> hd (replicate n (0::nat)) = 0" by (cases n) simp_all
  with True assms(1) show ?thesis
    by (simp add: on_load_def mt_safe_on_load_def unloaded_def)
next
  case False
  obtain e st h' where c: "capture_loop (getenv os) (name # names) h 1 = (e, st, h')"
    by (cases "capture_loop (getenv os) (name # names) h 1") auto
  from capture_loop_first_unset [OF assms(2) c] have hd: "hd e = 0" "e \<noteq> []" by simp_all
  then have "0 \<in> set e" by (cases e) auto
  with capture_loop_props [OF assms(1) c] have "st = 0" and "heap_ok h'" by auto
  with False c hd show ?thesis
    by (simp add: on_load_def mt_safe_on_load_def capture_env_t_def unloaded_def)
qed

lemmas eval_call =
  on_load_def mt_safe_on_load_def capture_env_t_def unloaded_def output_only_def preload_only_def
  vector_heap_def probe_libc_def env_names_def ENV_OUTPUT_def execve_def report_call_def
  call_execve_def string_array_partial_update_def string_array_copy_def string_array_length_def
  malloc_array_def store_slot_def strdup_def string_array_single_update_def realloc_def
  string_array_release_def free_def peek_def env_match_def strncmp_eq_def

subsection \<open>Calls of the entry points\<close>

text \<open>
  Claim C7, as amended. Let the library be not armed and let the first slot of the
  captured environment, the one of the output directory, be null: this is the state that
  \<^verbatim>\<open>on_load\<close> leaves when the output directory variable is not set
  (\<open>on_load_output_unset\<close>). Then \<^verbatim>\<open>report_call\<close> does nothing. Every entry point, in a
  heap that is in order, for a well formed call, with memory for its copies and with the
  genuine implementation found, returns what the genuine implementation returns for the
  same arguments; no report file is created, the globals are as before, and nothing
  that was in the heap has changed.
\<close>

theorem disarmed_pass_through:
  assumes ni: "\<not> initialized s" and dis: "initial_env s = [] \<or> hd (initial_env s) = 0"
    and ok: "heap_ok (mem s)" and cok: "call_ok s c"
    and av: "call_cost s c \<le> avail (mem s)" and d: "direct lc s c = Some r"
  shows "report_call os s argv = Inr s
       \<and> (\<exists>s'. intercept os lc names s c = Inr (r, s')
             \<and> files s' = files s \<and> initialized s' = initialized s
             \<and> initial_env s' = initial_env s \<and> environ s' = environ s
             \<and> unchanged_upto (brk (mem s)) (mem s) (mem s'))"
proof -
  from cok obtain es where e: "peek (mem s) (call_envp s c) = Some es"
    by (auto simp: call_ok_def)
  have rc: "report_call os t a = Inr t" if "\<not> initialized t" for t a
    using that by (rule report_call_disarmed)
  have fin: "\<exists>s'. intercept os lc names s c = Inr (r, s')
             \<and> files s' = files s \<and> initialized s' = initialized s
             \<and> initial_env s' = initial_env s \<and> environ s' = environ s
             \<and> unchanged_upto (brk (mem s)) (mem s) (mem s')"
    if "intercept os lc names s c = Inr (r, s\<lparr>mem := h2\<rparr>)"
      and "unchanged_upto (brk (mem s)) (mem s) h2" for h2
    using that by (intro exI [of _ "s\<lparr>mem := h2\<rparr>"]) simp
  have "\<exists>h2. intercept os lc names s c = Inr (r, s\<lparr>mem := h2\<rparr>)
           \<and> unchanged_upto (brk (mem s)) (mem s) h2"
  proof (cases c)
    case (Execve path a envp)
    with cok e av d obtain fp where p: "peek (mem s) envp = Some es"
      "length es + 1 \<le> avail (mem s)" "a = 0 \<or> peek (mem s) a \<noteq> None"
      "dl_execve lc = Some fp" "r = fp path (peek (mem s) a) (Some es)"
      by (auto simp: call_ok_def call_cost_def)
    from call_execve_disarmed [OF ok dis p(1-4), of names path] p(5) Execve rc [OF ni]
    show ?thesis by (auto simp: execve_def)
  next
    case (Execv path a)
    with cok e av d obtain fp where p: "peek (mem s) (environ s) = Some es"
      "length es + 1 \<le> avail (mem s)" "a = 0 \<or> peek (mem s) a \<noteq> None"
      "dl_execve lc = Some fp" "r = fp path (peek (mem s) a) (Some es)"
      by (auto simp: call_ok_def call_cost_def)
    from call_execve_disarmed [OF ok dis p(1-4), of names path] p(5) Execv rc [OF ni]
    show ?thesis by (auto simp: execv_def)
  next
    case (Execvpe fl a envp)
    with cok e av d obtain fp where p: "peek (mem s) envp = Some es"
      "length es + 1 \<le> avail (mem s)" "a = 0 \<or> peek (mem s) a \<noteq> None"
      "dl_execvpe lc = Some fp" "r = fp fl (peek (mem s) a) (Some es)"
      by (auto simp: call_ok_def call_cost_def)
    from call_execvpe_disarmed [OF ok dis p(1-4), of names fl] p(5) Execvpe rc [OF ni]
    show ?thesis by (auto simp: execvpe_def)
  next
    case (Execvp fl a)
    with cok e av d obtain fp where p: "peek (mem s) (environ s) = Some es"
      "length es + 1 \<le> avail (mem s)" "a = 0 \<or> peek (mem s) a \<noteq> None"
      "dl_execvp lc = Some fp" "r = fp fl (peek (mem s) a) (Some es)"
      by (auto simp: call_ok_def call_cost_def)
    from call_execvp_disarmed [OF ok dis p(1-4), of names fl] p(5) Execvp rc [OF ni]
    show ?thesis by (auto simp: execvp_def)
  next
    case (ExecvP fl search_path a)
    with cok e av d obtain fp where p: "peek (mem s) (environ s) = Some es"
      "length es + 1 \<le> avail (mem s)" "a = 0 \<or> peek (mem s) a \<noteq> None"
      "dl_execvP lc = Some fp" "r = fp fl search_path (peek (mem s) a) (Some es)"
      by (auto simp: call_ok_def call_cost_def)
    from call_execvP_disarmed [OF ok dis p(1-4), of names fl search_path] p(5) ExecvP
      rc [OF ni]
    show ?thesis by (auto simp: execvP_def)
  next
    case (Exect path a envp)
    with cok e av d obtain fp where p: "peek (mem s) envp = Some es"
      "length es + 1 \<le> avail (mem s)" "a = 0 \<or> peek (mem s) a \<noteq> None"
      "dl_exect lc = Some fp" "r = fp path (peek (mem s) a) (Some es)"
      by (auto simp: call_ok_def call_cost_def)
    from call_exect_disarmed [OF ok dis p(1-4), of names path] p(5) Exect rc [OF ni]
    show ?thesis by (auto simp: exect_def)
  next
    case (Posix_spawn pid path file_actions attrp a envp)
    with cok e av d obtain fp where p: "peek (mem s) envp = Some es"
      "length es + 1 \<le> avail (mem s)" "a = 0 \<or> peek (mem s) a \<noteq> None"
      "dl_posix_spawn lc = Some fp"
      "r = fp pid path file_actions attrp (peek (mem s) a) (Some es)"
      by (auto simp: call_ok_def call_cost_def)
    from call_posix_spawn_disarmed [OF ok dis p(1-4), of names pid path file_actions attrp]
      p(5) Posix_spawn rc [OF ni]
    show ?thesis by (auto simp: posix_spawn_def)
  next
    case (Posix_spawnp pid fl file_actions attrp a envp)
    with cok e av d obtain fp where p: "peek (mem s) envp = Some es"
      "length es + 1 \<le> avail (mem s)" "a = 0 \<or> peek (mem s) a \<noteq> None"
      "dl_posix_spawnp lc = Some fp"
      "r = fp pid fl file_actions attrp (peek (mem s) a) (Some es)"
      by (auto simp: call_ok_def call_cost_def)
    from call_posix_spawnp_disarmed [OF ok dis p(1-4), of names pid fl file_actions attrp]
      p(5) Posix_spawnp rc [OF ni]
    show ?thesis by (auto simp: posix_spawnp_def)
  next
    case (Execl path args)
    with cok e av d obtain fp xs where p: "peek (mem s) (environ s) = Some es"
      "2 * length args + 1 + (length es + 1) \<le> avail (mem s)"
      "va_view (mem s) args = Some xs"
      "dl_execve lc = Some fp" "r = fp path (Some xs) (Some es)"
      by (auto simp: call_ok_def call_cost_def)
    from varargs_frame [OF ok p(3,1,2)] obtain a h1 rest where
      v: "string_array_from_varargs (mem s) args = Inr (a, h1, rest)"
      and ok1: "heap_ok h1" and pa: "peek h1 a = Some xs"
      and pe: "peek h1 (environ s) = Some es" and av1: "length es + 1 \<le> avail h1"
      and rel: "\<forall>h2. heap_ok h2 \<and> unchanged_upto (brk h1) h1 h2 \<longrightarrow>
                 (\<exists>h3. string_array_release h2 a = Inr h3
                        \<and> unchanged_upto (brk (mem s)) (mem s) h3)" by blast
    define s1 where "s1 = s\<lparr>mem := h1\<rparr>"
    have q: "heap_ok (mem s1)" "initial_env s1 = [] \<or> hd (initial_env s1) = 0"
      "peek (mem s1) (environ s1) = Some es" "length es + 1 \<le> avail (mem s1)"
      "a = 0 \<or> peek (mem s1) a \<noteq> None" "\<not> initialized s1"
      using ok1 dis pe av1 pa ni by (simp_all add: s1_def)
    from call_execve_disarmed [OF q(1-5) p(4), of names path] obtain h2 where
      c: "call_execve lc names s1 path a (environ s1)
            = Inr (fp path (peek (mem s1) a) (Some es), s1\<lparr>mem := h2\<rparr>)"
      and h2: "heap_ok h2" "unchanged_upto (brk (mem s1)) (mem s1) h2" by blast
    from rel h2 obtain h3 where r3: "string_array_release h2 a = Inr h3"
      and u3: "unchanged_upto (brk (mem s)) (mem s) h3" by (auto simp: s1_def)
    have "execl os lc names s path args = Inr (r, s\<lparr>mem := h3\<rparr>)"
      using v rc [OF q(6)] c r3 pa p(5) by (simp add: execl_def s1_def)
    with u3 Execl show ?thesis by auto
  next
    case (Execlp fl args)
    with cok e av d obtain fp xs where p: "peek (mem s) (environ s) = Some es"
      "2 * length args + 1 + (length es + 1) \<le> avail (mem s)"
      "va_view (mem s) args = Some xs"
      "dl_execvp lc = Some fp" "r = fp fl (Some xs) (Some es)"
      by (auto simp: call_ok_def call_cost_def)
    from varargs_frame [OF ok p(3,1,2)] obtain a h1 rest where
      v: "string_array_from_varargs (mem s) args = Inr (a, h1, rest)"
      and ok1: "heap_ok h1" and pa: "peek h1 a = Some xs"
      and pe: "peek h1 (environ s) = Some es" and av1: "length es + 1 \<le> avail h1"
      and rel: "\<forall>h2. heap_ok h2 \<and> unchanged_upto (brk h1) h1 h2 \<longrightarrow>
                 (\<exists>h3. string_array_release h2 a = Inr h3
                        \<and> unchanged_upto (brk (mem s)) (mem s) h3)" by blast
    define s1 where "s1 = s\<lparr>mem := h1\<rparr>"
    have q: "heap_ok (mem s1)" "initial_env s1 = [] \<or> hd (initial_env s1) = 0"
      "peek (mem s1) (environ s1) = Some es" "length es + 1 \<le> avail (mem s1)"
      "a = 0 \<or> peek (mem s1) a \<noteq> None" "\<not> initialized s1"
      using ok1 dis pe av1 pa ni by (simp_all add: s1_def)
    from call_execvp_disarmed [OF q(1-5) p(4), of names fl] obtain h2 where
      c: "call_execvp lc names s1 fl a
            = Inr (fp fl (peek (mem s1) a) (Some es), s1\<lparr>mem := h2\<rparr>)"
      and h2: "heap_ok h2" "unchanged_upto (brk (mem s1)) (mem s1) h2" by blast
    from rel h2 obtain h3 where r3: "string_array_release h2 a = Inr h3"
      and u3: "unchanged_upto (brk (mem s)) (mem s) h3" by (auto simp: s1_def)
    have "execlp os lc names s fl args = Inr (r, s\<lparr>mem := h3\<rparr>)"
      using v rc [OF q(6)] c r3 pa p(5) by (simp add: execlp_def s1_def)
    with u3 Execlp show ?thesis by auto
  next
    case (Execle path args)
    with cok e av d obtain fp xs where p: "peek (mem s) (va_next args) = Some es"
      "2 * length args + 1 + (length es + 1) \<le> avail (mem s)"
      "va_view (mem s) args = Some xs"
      "dl_execve lc = Some fp" "r = fp path (Some xs) (Some es)"
      by (auto simp: call_ok_def call_cost_def)
    from varargs_frame [OF ok p(3,1,2)] obtain a h1 rest where
      v: "string_array_from_varargs (mem s) args = Inr (a, h1, rest)"
      and ok1: "heap_ok h1" and pa: "peek h1 a = Some xs"
      and pe: "peek h1 (va_next args) = Some es" and av1: "length es + 1 \<le> avail h1"
      and nx: "va_next args = (case rest of [] \<Rightarrow> 0 | e # _ \<Rightarrow> e)"
      and rel: "\<forall>h2. heap_ok h2 \<and> unchanged_upto (brk h1) h1 h2 \<longrightarrow>
                 (\<exists>h3. string_array_release h2 a = Inr h3
                        \<and> unchanged_upto (brk (mem s)) (mem s) h3)" by blast
    from peek_layout [OF p(1)] have "va_next args \<noteq> 0" by blast
    with nx obtain rest' where rest: "rest = va_next args # rest'" by (cases rest) auto
    define s1 where "s1 = s\<lparr>mem := h1\<rparr>"
    have q: "heap_ok (mem s1)" "initial_env s1 = [] \<or> hd (initial_env s1) = 0"
      "peek (mem s1) (va_next args) = Some es" "length es + 1 \<le> avail (mem s1)"
      "a = 0 \<or> peek (mem s1) a \<noteq> None" "\<not> initialized s1"
      using ok1 dis pe av1 pa ni by (simp_all add: s1_def)
    from call_execve_disarmed [OF q(1-5) p(4), of names path] obtain h2 where
      c: "call_execve lc names s1 path a (va_next args)
            = Inr (fp path (peek (mem s1) a) (Some es), s1\<lparr>mem := h2\<rparr>)"
      and h2: "heap_ok h2" "unchanged_upto (brk (mem s1)) (mem s1) h2" by blast
    from rel h2 obtain h3 where r3: "string_array_release h2 a = Inr h3"
      and u3: "unchanged_upto (brk (mem s)) (mem s) h3" by (auto simp: s1_def)
    have "execle os lc names s path args = Inr (r, s\<lparr>mem := h3\<rparr>)"
      using v rest rc [OF q(6)] c r3 pa p(5) by (simp add: execle_def s1_def)
    with u3 Execle show ?thesis by auto
  qed
  then obtain h2 where "intercept os lc names s c = Inr (r, s\<lparr>mem := h2\<rparr>)"
    and "unchanged_upto (brk (mem s)) (mem s) h2" by blast
  from fin [OF this] rc [OF ni] show ?thesis by simp
qed

text \<open>
  The theorem after a load with only \<^verbatim>\<open>LD_PRELOAD\<close> set: \<^verbatim>\<open>execve\<close> with an empty
  environment returns \<open>0\<close>, as the genuine \<^verbatim>\<open>execve\<close> of the example does.
\<close>

theorem disarmed_pass_through_witness:
  "\<not> initialized (on_load preload_only env_names (unloaded 2 1 vector_heap))
   \<and> initial_env (on_load preload_only env_names (unloaded 2 1 vector_heap)) = [0, 2]
   \<and> heap_ok (mem (on_load preload_only env_names (unloaded 2 1 vector_heap)))
   \<and> call_ok (on_load preload_only env_names (unloaded 2 1 vector_heap))
        (Execve ''/bin/true'' 0 1)
   \<and> direct probe_libc (on_load preload_only env_names (unloaded 2 1 vector_heap))
        (Execve ''/bin/true'' 0 1) = Some 0
   \<and> report_call preload_only (on_load preload_only env_names (unloaded 2 1 vector_heap)) 0
        = Inr (on_load preload_only env_names (unloaded 2 1 vector_heap))
   \<and> (\<exists>s'. intercept preload_only probe_libc env_names
               (on_load preload_only env_names (unloaded 2 1 vector_heap))
               (Execve ''/bin/true'' 0 1) = Inr (0, s')
          \<and> files s' = [] \<and> \<not> initialized s' \<and> initial_env s' = [0, 2] \<and> environ s' = 1
          \<and> unchanged_upto 2
               (mem (on_load preload_only env_names (unloaded 2 1 vector_heap))) (mem s'))"
proof -
  define s where "s = on_load preload_only env_names (unloaded 2 1 vector_heap)"
  have s: "s = \<lparr>initialized = False, initial_env = [0, 2], utf_locale = 1, environ = 1,
      mem = \<lparr>strs = [2 \<mapsto> ''libear.so''], arrs = [1 \<mapsto> [0]], brk = 2, avail = 19,
              garbage = 77, moves = True\<rparr>, files = []\<rparr>"
    unfolding s_def by (simp add: eval_call numeral_2_eq_2)
  have ni: "\<not> initialized s" and ie: "initial_env s = [0, 2]" and fs: "files s = []"
    and en: "environ s = 1" and bk: "brk (mem s) = 2"
    by (simp_all add: s)
  have dis: "initial_env s = [] \<or> hd (initial_env s) = 0" by (simp add: ie)
  have ok: "heap_ok (mem s)" by (auto simp: s heap_ok_def)
  have pe: "peek (mem s) 1 = Some []" by (simp add: s peek_def)
  have cok: "call_ok s (Execve ''/bin/true'' 0 1)" using pe by (simp add: call_ok_def)
  have av: "call_cost s (Execve ''/bin/true'' 0 1) \<le> avail (mem s)"
    using pe by (simp add: call_cost_def) (simp add: s)
  have d: "direct probe_libc s (Execve ''/bin/true'' 0 1) = Some 0"
    using pe by (simp add: probe_libc_def)
  from disarmed_pass_through [OF ni dis ok cok av d, of preload_only 0 env_names]
    ni ie ok cok d
  show ?thesis unfolding s_def [symmetric] by (simp add: ni ie fs en bk)
qed

text \<open>
  Claim C7 as stated covers every state in which the library is not armed. After a load
  with the output directory set and \<^verbatim>\<open>LD_PRELOAD\<close> not set the flag is clear, but the first
  slot holds the copy of the directory. \<^verbatim>\<open>execve\<close> writes no report, and hands the genuine
  implementation an environment to which \<^verbatim>\<open>INTERCEPT_BUILD_TARGET_DIR=/out\<close> was added:
  called with the empty environment it returns \<open>1\<close>, where the direct call returns \<open>0\<close>.
\<close>

theorem disarmed_override_counterexample:
  "\<not> initialized (on_load output_only env_names (unloaded 2 1 vector_heap))
   \<and> initial_env (on_load output_only env_names (unloaded 2 1 vector_heap)) = [2, 0]
   \<and> call_ok (on_load output_only env_names (unloaded 2 1 vector_heap))
        (Execve ''/bin/true'' 0 1)
   \<and> direct probe_libc (on_load output_only env_names (unloaded 2 1 vector_heap))
        (Execve ''/bin/true'' 0 1) = Some 0
   \<and> (\<exists>s'. intercept output_only probe_libc env_names
               (on_load output_only env_names (unloaded 2 1 vector_heap))
               (Execve ''/bin/true'' 0 1) = Inr (1, s')
          \<and> files s' = [])"
proof -
  define s where "s = on_load output_only env_names (unloaded 2 1 vector_heap)"
  have s: "s = \<lparr>initialized = False, initial_env = [2, 0], utf_locale = 1, environ = 1,
      mem = \<lparr>strs = [2 \<mapsto> ''/out''], arrs = [1 \<mapsto> [0]], brk = 2, avail = 19,
              garbage = 77, moves = True\<rparr>, files = []\<rparr>"
    unfolding s_def by (simp add: eval_call numeral_2_eq_2)
  have pe: "peek (mem s) 1 = Some []" by (simp add: s peek_def)
  have cok: "call_ok s (Execve ''/bin/true'' 0 1)" using pe by (simp add: call_ok_def)
  have d: "direct probe_libc s (Execve ''/bin/true'' 0 1) = Some 0"
    using pe by (simp add: probe_libc_def)
  have "\<exists>s'. execve output_only probe_libc env_names s ''/bin/true'' 0 1 = Inr (1, s')
          \<and> files s' = []"
    unfolding s by (simp add: eval_call numeral_2_eq_2)
  with cok d show ?thesis unfolding s_def [symmetric] by (simp add: s)
qed

end
